theory Spec2Isabelle
  imports Main
begin

section \<open>The JavaScript \<open>Map\<close> used by the component\<close>

text \<open>
  \<open>src/multi-select.tsx\<close> keeps the selection in a \<open>Map<string, T>\<close>. A JavaScript
  \<open>Map\<close> iterates in insertion order, \<open>set\<close> on a key that is present replaces the
  value where the entry stands, \<open>set\<close> on a new key appends, and \<open>delete\<close> removes the
  entry. The model is the list of entries in iteration order.
\<close>

type_synonym 'a jsmap = "(string \<times> 'a) list"

definition map_has :: "string \<Rightarrow> 'a jsmap \<Rightarrow> bool" where
  "map_has k m = (k \<in> set (map fst m))"

fun map_set :: "string \<Rightarrow> 'a \<Rightarrow> 'a jsmap \<Rightarrow> 'a jsmap" where
  "map_set k v [] = [(k, v)]"
| "map_set k v (e # m) = (if fst e = k then (k, v) # m else e # map_set k v m)"

definition map_delete :: "string \<Rightarrow> 'a jsmap \<Rightarrow> 'a jsmap" where
  "map_delete k m = filter (\<lambda>e. fst e \<noteq> k) m"

definition map_get :: "string \<Rightarrow> 'a jsmap \<Rightarrow> 'a option" where
  "map_get k m = map_of m k"

definition map_entries :: "'a jsmap \<Rightarrow> (string \<times> 'a) list" where
  "map_entries m = m"

definition map_values :: "'a jsmap \<Rightarrow> 'a list" where
  "map_values m = map snd m"

definition map_size :: "'a jsmap \<Rightarrow> nat" where
  "map_size m = length m"

text \<open>\<open>new Map(iterable)\<close>: starts empty and calls \<open>set\<close> for each pair, in order.\<close>

definition new_Map :: "(string \<times> 'a) list \<Rightarrow> 'a jsmap" where
  "new_Map ps = foldl (\<lambda>m e. map_set (fst e) (snd e) m) [] ps"

section \<open>\<open>MultiSelect\<close>: props, selected map and toggling\<close>

text \<open>
  The props of \<open>MultiSelect\<close> (lines 64-76). The optional callbacks are host code; a
  callback is modelled by what it does to the host's state \<open>'h\<close>, and an optional prop
  that is left out is \<open>None\<close>.
\<close>

record ('a, 'node, 'h) MultiSelectProps =
  "values" :: "'a list"
  onValuesChange :: "('a list \<Rightarrow> 'h \<Rightarrow> 'h) option"
  inputValue :: "string option"
  onInputChange :: "(string \<Rightarrow> 'h \<Rightarrow> 'h) option"
  getId :: "'a \<Rightarrow> string"
  renderItem :: "'a \<Rightarrow> bool \<Rightarrow> 'node"

text \<open>Line 93: \<open>new Map(values.map((v) => [getId(v), v]))\<close>.\<close>

definition selectedMap :: "('a, 'node, 'h) MultiSelectProps \<Rightarrow> 'a jsmap" where
  "selectedMap p = new_Map (map (\<lambda>v. (getId p v, v)) (values p))"

text \<open>
  Lines 98-103 of \<open>toggleValue\<close>: the array \<open>[...next.values()]\<close>, where \<open>next\<close> is a
  copy of the selected map with the entry of \<open>getId(val)\<close> deleted when present and set to
  \<open>val\<close> otherwise.
\<close>

definition toggle_next :: "('a, 'node, 'h) MultiSelectProps \<Rightarrow> 'a \<Rightarrow> 'a jsmap" where
  "toggle_next p val =
     (let ident = getId p val;
          next = new_Map (map_entries (selectedMap p))
      in if map_has ident next then map_delete ident next else map_set ident val next)"

text \<open>
  \<open>toggleValue\<close> (lines 96-106): \<open>onValuesChange?.([...next.values()])\<close> calls the
  callback when the host gave one and does nothing otherwise.
\<close>

definition toggleValue :: "('a, 'node, 'h) MultiSelectProps \<Rightarrow> 'a \<Rightarrow> 'h \<Rightarrow> 'h" where
  "toggleValue p val h =
     (case onValuesChange p of
        None \<Rightarrow> h
      | Some cb \<Rightarrow> cb (map_values (toggle_next p val)) h)"

section \<open>The search box (lines 89-91 and 256-288)\<close>

text \<open>The \<open>useState\<close> cells of \<open>MultiSelect\<close> that the claims read (lines 87-89).\<close>

record MultiSelectState =
  "open" :: bool
  internalSearch :: string

text \<open>Line 90: \<open>inputValue ?? internalSearch\<close>.\<close>

definition searchValue :: "('a, 'node, 'h) MultiSelectProps \<Rightarrow> MultiSelectState \<Rightarrow> string" where
  "searchValue p st = (case inputValue p of None \<Rightarrow> internalSearch st | Some s \<Rightarrow> s)"

text \<open>
  Line 91: \<open>onInputChange ?? setInternalSearch\<close>. The host's callback acts on the host's
  state, the internal setter on the component's.
\<close>

definition setSearchValue ::
  "('a, 'node, 'h) MultiSelectProps \<Rightarrow> string \<Rightarrow> 'h \<times> MultiSelectState \<Rightarrow> 'h \<times> MultiSelectState" where
  "setSearchValue p val w =
     (case onInputChange p of
        None \<Rightarrow> (fst w, (snd w)\<lparr>internalSearch := val\<rparr>)
      | Some cb \<Rightarrow> (cb val (fst w), snd w))"

text \<open>
  The \<open>search\<close> prop of \<open>MultiSelectContent\<close>:
  \<open>boolean | { placeholder?: string; emptyMessage?: string }\<close>.
\<close>

datatype search_prop = SearchBool bool | SearchOptions "string option" "string option"

text \<open>\<open>typeof search === "object"\<close> and JavaScript truthiness, on the values of that type.\<close>

fun typeof_object :: "search_prop \<Rightarrow> bool" where
  "typeof_object (SearchBool b) = False"
| "typeof_object (SearchOptions ph em) = True"

fun truthy :: "search_prop \<Rightarrow> bool" where
  "truthy (SearchBool b) = b"
| "truthy (SearchOptions ph em) = True"

record 'h CommandInput =
  input_value :: string
  onValueChange :: "string \<Rightarrow> 'h \<times> MultiSelectState \<Rightarrow> 'h \<times> MultiSelectState"
  input_placeholder :: "string option"

record 'h ContentView =
  commandInput :: "'h CommandInput option"
  commandEmpty :: "string option"

text \<open>
  \<open>MultiSelectContent\<close> (lines 256-288). The prop is optional with the default
  \<open>search = true\<close>; \<open>None\<close> is the prop left out.
\<close>

definition MultiSelectContent ::
  "search_prop option \<Rightarrow> ('a, 'node, 'h) MultiSelectProps \<Rightarrow> MultiSelectState \<Rightarrow> 'h ContentView" where
  "MultiSelectContent search_opt p st =
     (let search = (case search_opt of None \<Rightarrow> SearchBool True | Some s \<Rightarrow> s);
          canSearch = (typeof_object search \<or> truthy search)
      in \<lparr>commandInput =
            (if canSearch
             then Some \<lparr>input_value = searchValue p st,
                        onValueChange = setSearchValue p,
                        input_placeholder =
                          (case search of
                             SearchOptions ph em \<Rightarrow> ph
                           | SearchBool b \<Rightarrow> Some ''Search...'')\<rparr>
             else None),
          commandEmpty =
            (case search of
               SearchOptions ph em \<Rightarrow> em
             | SearchBool b \<Rightarrow> Some ''No results'')\<rparr>)"

section \<open>\<open>MultiSelectValue\<close>: the overflow measurement (lines 187-209)\<close>

datatype overflowBehavior = Wrap | WrapWhenOpen | Cutoff

text \<open>Lines 187-189.\<close>

definition shouldWrap :: "overflowBehavior \<Rightarrow> bool \<Rightarrow> bool" where
  "shouldWrap ob opn = (ob = Wrap \<or> (ob = WrapWhenOpen \<and> opn))"

text \<open>
  The inline \<open>style.display\<close> of a badge element: the effect writes \<open>""\<close> and \<open>"none"\<close>.
\<close>

datatype display = DisplayDefault | DisplayNone

text \<open>
  The browser's layout is not part of the source: the container's \<open>scrollWidth\<close> and
  \<open>clientWidth\<close> are taken as arbitrary functions of the displays of its badge
  elements (in document order).
\<close>

record layout =
  scrollWidth :: "display list \<Rightarrow> int"
  clientWidth :: "display list \<Rightarrow> int"

datatype error = TypeError

text \<open>
  The variables of the loop of lines 202-207: the displays of \<open>childrenEls\<close> and the
  counter \<open>hidden\<close>. Two fields are ghost state that the source does not have:
  \<open>iterations\<close> counts the entries into the loop body and \<open>hidden_at\<close> lists the indices
  whose badge was hidden, in the order of hiding.
\<close>

record scan_state =
  els :: "display list"
  hidden :: nat
  iterations :: nat
  hidden_at :: "nat list"

text \<open>
  The \<open>for\<close> loop (lines 203-207), from the index \<open>i\<close> downwards. Reading
  \<open>childrenEls[i].style\<close> past the end of the array throws a \<open>TypeError\<close> in JavaScript.
\<close>

function scan :: "layout \<Rightarrow> int \<Rightarrow> scan_state \<Rightarrow> error + scan_state" where
  "scan L i s =
     (if 0 \<le> i then
        (if scrollWidth L (els s) \<le> clientWidth L (els s)
         then Inr (s\<lparr>iterations := iterations s + 1\<rparr>)
         else if nat i < length (els s)
         then scan L (i - 1)
                (s\<lparr>els := (els s)[nat i := DisplayNone],
                   hidden := hidden s + 1,
                   iterations := iterations s + 1,
                   hidden_at := hidden_at s @ [nat i]\<rparr>)
         else Inl TypeError)
      else Inr s)"
  by pat_completeness auto
termination
  by (relation "measure (\<lambda>(L, i, s). nat (i + 1))") auto

declare scan.simps [simp del]

text \<open>Lines 198-207: every badge is shown again, then the loop runs from the last badge.\<close>

definition measure_overflow :: "layout \<Rightarrow> display list \<Rightarrow> error + scan_state" where
  "measure_overflow L childrenEls =
     scan L (int (length childrenEls) - 1)
       \<lparr>els = map (\<lambda>el. DisplayDefault) childrenEls,
        hidden = 0, iterations = 0, hidden_at = []\<rparr>"

text \<open>
  Two notions for stating what the loop does: the content fits when the test of line 204
  succeeds, and \<open>cfg n j\<close> is the row of \<open>n\<close> badges whose last \<open>j\<close> are hidden.
\<close>

definition fits :: "layout \<Rightarrow> display list \<Rightarrow> bool" where
  "fits L ds = (scrollWidth L ds \<le> clientWidth L ds)"

definition cfg :: "nat \<Rightarrow> nat \<Rightarrow> display list" where
  "cfg n j = replicate (n - j) DisplayDefault @ replicate j DisplayNone"

text \<open>
  What the effect reads and writes: \<open>valueRef.current\<close> (\<open>None\<close> is \<open>null\<close>; the
  container is given by the displays of its \<open>[data-selected-item]\<close> elements) and the
  state cell \<open>overflowAmount\<close>.
\<close>

record value_state =
  valueRef :: "display list option"
  overflowAmount :: nat

text \<open>The effect of lines 191-209; its argument \<open>wrap\<close> is \<open>shouldWrap\<close>.\<close>

definition overflow_effect :: "layout \<Rightarrow> bool \<Rightarrow> value_state \<Rightarrow> error + value_state" where
  "overflow_effect L wrap st =
     (case valueRef st of
        None \<Rightarrow> Inr (st\<lparr>overflowAmount := 0\<rparr>)
      | Some childrenEls \<Rightarrow>
          if wrap then Inr (st\<lparr>overflowAmount := 0\<rparr>)
          else (case measure_overflow L childrenEls of
                  Inl e \<Rightarrow> Inl e
                | Inr s \<Rightarrow> Inr \<lparr>valueRef = Some (els s), overflowAmount = hidden s\<rparr>))"

section \<open>\<open>MultiSelectValue\<close>: what is rendered (lines 211-249)\<close>

record MultiSelectValueProps =
  placeholder :: "string option"
  clickToRemove :: "bool option"
  overflowBehavior :: "overflowBehavior option"

text \<open>The defaults of lines 173-174: \<open>clickToRemove = true\<close>, \<open>overflowBehavior = "wrap-when-open"\<close>.\<close>

definition clickToRemove_of :: "MultiSelectValueProps \<Rightarrow> bool" where
  "clickToRemove_of vp = (case clickToRemove vp of None \<Rightarrow> True | Some b \<Rightarrow> b)"

definition overflowBehavior_of :: "MultiSelectValueProps \<Rightarrow> overflowBehavior" where
  "overflowBehavior_of vp = (case overflowBehavior vp of None \<Rightarrow> WrapWhenOpen | Some b \<Rightarrow> b)"

record event =
  propagationStopped :: bool

text \<open>
  A badge of lines 224-242: its React key, its click handler (\<open>None\<close> is \<open>undefined\<close>),
  the node \<open>renderItem(value, true)\<close> and whether the \<open>XIcon\<close> is there.
\<close>

record ('node, 'h) badge =
  badge_key :: string
  onClick :: "(event \<times> 'h \<Rightarrow> event \<times> 'h) option"
  badge_content :: 'node
  removeIcon :: bool

text \<open>
  The rendered output: the placeholder \<open>span\<close>, or the \<open>div\<close> with its \<open>flex-wrap\<close>
  class, its badges and the overflow badge (\<open>Some n\<close> is the badge \<open>+n\<close>). The other
  class names are fixed strings and the host's \<open>className\<close>; they are left out.
\<close>

datatype ('node, 'h) value_view =
  PlaceholderSpan "string option"
| ValueBox bool "('node, 'h) badge list" "nat option"

definition selected_badge ::
  "('a, 'node, 'h) MultiSelectProps \<Rightarrow> bool \<Rightarrow> string \<times> 'a \<Rightarrow> ('node, 'h) badge" where
  "selected_badge p ctr e =
     \<lparr>badge_key = fst e,
      onClick =
        (if ctr
         then Some (\<lambda>(ev, h). (ev\<lparr>propagationStopped := True\<rparr>, toggleValue p (snd e) h))
         else None),
      badge_content = renderItem p (snd e) True,
      removeIcon = ctr\<rparr>"

text \<open>
  \<open>MultiSelectValue\<close>, given its props, the context (the props of \<open>MultiSelect\<close> and
  \<open>open\<close>) and its state cell \<open>overflowAmount\<close>.
\<close>

definition MultiSelectValue ::
  "MultiSelectValueProps \<Rightarrow> ('a, 'node, 'h) MultiSelectProps \<Rightarrow> bool \<Rightarrow> nat
   \<Rightarrow> ('node, 'h) value_view" where
  "MultiSelectValue vp p opn amount =
     (let ctr = clickToRemove_of vp;
          wrap = shouldWrap (overflowBehavior_of vp) opn
      in if map_size (selectedMap p) = 0 then PlaceholderSpan (placeholder vp)
         else ValueBox wrap
                (map (selected_badge p ctr) (map_entries (selectedMap p)))
                (if 0 < amount \<and> \<not> wrap then Some amount else None))"

text \<open>Readers of the rendered output.\<close>

fun view_badges :: "('node, 'h) value_view \<Rightarrow> ('node, 'h) badge list" where
  "view_badges (PlaceholderSpan ph) = []"
| "view_badges (ValueBox w bs ov) = bs"

fun view_overflow :: "('node, 'h) value_view \<Rightarrow> nat option" where
  "view_overflow (PlaceholderSpan ph) = None"
| "view_overflow (ValueBox w bs ov) = ov"

section \<open>\<open>toggleValue\<close> on a store of objects\<close>

text \<open>
  JavaScript arrays and maps are objects that are passed by reference. To say what
  \<open>toggleValue\<close> mutates, the objects live in a store and a reference is an index into
  it; \<open>new\<close> and an array literal allocate at the end.
\<close>

datatype 'a obj = ArrayObj "'a list" | MapObj "'a jsmap"

type_synonym 'a heap = "'a obj list"

definition alloc :: "'a obj \<Rightarrow> 'a heap \<Rightarrow> 'a heap \<times> nat" where
  "alloc ob hp = (hp @ [ob], length hp)"

definition heap_map :: "'a heap \<Rightarrow> nat \<Rightarrow> 'a jsmap option" where
  "heap_map hp r =
     (if r < length hp then (case hp ! r of MapObj m \<Rightarrow> Some m | ArrayObj xs \<Rightarrow> None) else None)"

definition heap_array :: "'a heap \<Rightarrow> nat \<Rightarrow> 'a list option" where
  "heap_array hp r =
     (if r < length hp then (case hp ! r of ArrayObj xs \<Rightarrow> Some xs | MapObj m \<Rightarrow> None) else None)"

text \<open>A method that mutates the map object behind the reference \<open>r\<close> in place.\<close>

definition map_mutate :: "nat \<Rightarrow> ('a jsmap \<Rightarrow> 'a jsmap) \<Rightarrow> 'a heap \<Rightarrow> 'a heap option" where
  "map_mutate r f hp =
     (case heap_map hp r of None \<Rightarrow> None | Some m \<Rightarrow> Some (hp[r := MapObj (f m)]))"

text \<open>Line 93 on the store: the render allocates the selected map from the \<open>values\<close> array.\<close>

definition selectedMap_heap :: "('a \<Rightarrow> string) \<Rightarrow> nat \<Rightarrow> 'a heap \<Rightarrow> ('a heap \<times> nat) option" where
  "selectedMap_heap gid valuesRef hp =
     (case heap_array hp valuesRef of
        None \<Rightarrow> None
      | Some vs \<Rightarrow> Some (alloc (MapObj (new_Map (map (\<lambda>v. (gid v, v)) vs))) hp))"

text \<open>
  Lines 98-103 on the store: \<open>next\<close> is a new map object, \<open>delete\<close> and \<open>set\<close> mutate
  \<open>next\<close>, and the spread allocates the array whose reference \<open>onValuesChange\<close> receives.
  The result is the store afterwards and that reference.
\<close>

definition toggleValue_heap ::
  "('a \<Rightarrow> string) \<Rightarrow> nat \<Rightarrow> 'a \<Rightarrow> 'a heap \<Rightarrow> ('a heap \<times> nat) option" where
  "toggleValue_heap gid selRef val hp =
     (case heap_map hp selRef of
        None \<Rightarrow> None
      | Some sel \<Rightarrow>
          (let ident = gid val;
               a1 = alloc (MapObj (new_Map (map_entries sel))) hp;
               next = snd a1
           in case heap_map (fst a1) next of
                None \<Rightarrow> None
              | Some m \<Rightarrow>
                  (case (if map_has ident m
                         then map_mutate next (map_delete ident) (fst a1)
                         else map_mutate next (map_set ident val) (fst a1)) of
                     None \<Rightarrow> None
                   | Some hp2 \<Rightarrow>
                       (case heap_map hp2 next of
                          None \<Rightarrow> None
                        | Some m2 \<Rightarrow> Some (alloc (ArrayObj (map_values m2)) hp2)))))"

section \<open>The example of the README\<close>

text \<open>
  The README's \<open>Framework = { id: string; name: string }\<close> (a pair here), selected with
  \<open>getId={(f) => f.id}\<close> and \<open>onValuesChange={setSelected}\<close>: the host's state is the
  selected list, and the callback stores the list it is given.
\<close>

type_synonym framework = "string \<times> string"

definition readme_props ::
  "framework list \<Rightarrow> (framework, string, framework list) MultiSelectProps" where
  "readme_props selected =
     \<lparr>values = selected,
      onValuesChange = Some (\<lambda>vs h. vs),
      inputValue = None,
      onInputChange = None,
      getId = fst,
      renderItem = (\<lambda>item isSelected. (if isSelected then ''* '' else []) @ snd item)\<rparr>"

text \<open>
  Two layouts to run the overflow loop on: a container 100 wide whose visible badges are
  40 wide each, and a container whose content never fits.
\<close>

definition badges_of_40_in_100 :: layout where
  "badges_of_40_in_100 =
     \<lparr>scrollWidth = (\<lambda>ds. 40 * int (length (filter (\<lambda>d. d = DisplayDefault) ds))),
      clientWidth = (\<lambda>ds. 100)\<rparr>"

definition never_fits :: layout where
  "never_fits = \<lparr>scrollWidth = (\<lambda>ds. 1), clientWidth = (\<lambda>ds. 0)\<rparr>"

text \<open>
  The controlled use of the README, twice: the host stores the list that the first
  toggle reports as the next \<open>values\<close> prop, and the same value is toggled again.
\<close>

definition toggle_twice :: "('a, 'node, 'h) MultiSelectProps \<Rightarrow> 'a \<Rightarrow> 'a list" where
  "toggle_twice p v =
     map_values (toggle_next (p\<lparr>values := map_values (toggle_next p v)\<rparr>) v)"

section \<open>Facts about the map operations\<close>

lemma map_set_keys:
  "map fst (map_set k v m) = (if k \<in> set (map fst m) then map fst m else map fst m @ [k])"
  by (induction m) auto

lemma map_set_absent: "k \<notin> set (map fst m) \<Longrightarrow> map_set k v m = m @ [(k, v)]"
  by (induction m) auto

lemma map_set_distinct: "distinct (map fst m) \<Longrightarrow> distinct (map fst (map_set k v m))"
  by (simp add: map_set_keys)

lemma foldl_map_set_distinct:
  "distinct (map fst acc) \<Longrightarrow>
   distinct (map fst (foldl (\<lambda>m e. map_set (fst e) (snd e) m) acc ps))"
  by (induction ps arbitrary: acc) (simp_all add: map_set_distinct)

lemma new_Map_distinct: "distinct (map fst (new_Map ps))"
  by (simp add: new_Map_def foldl_map_set_distinct)

lemma foldl_map_set_copy:
  "distinct (map fst (acc @ ps)) \<Longrightarrow>
   foldl (\<lambda>m e. map_set (fst e) (snd e) m) acc ps = acc @ ps"
proof (induction ps arbitrary: acc)
  case Nil
  then show ?case by simp
next
  case (Cons e ps)
  have absent: "fst e \<notin> set (map fst acc)"
    using Cons.prems by auto
  have step: "map_set (fst e) (snd e) acc = acc @ [e]"
    using map_set_absent [OF absent, of "snd e"] by simp
  have "distinct (map fst ((acc @ [e]) @ ps))"
    using Cons.prems by simp
  from Cons.IH [OF this] show ?case
    by (simp add: step)
qed

text \<open>Copying a map (\<open>new Map(selectedMap)\<close>) gives the same entries in the same order.\<close>

lemma new_Map_copy: "distinct (map fst m) \<Longrightarrow> new_Map (map_entries m) = m"
  using foldl_map_set_copy [of "[]" m] by (simp add: new_Map_def map_entries_def)

lemma selectedMap_distinct: "distinct (map fst (selectedMap p))"
  by (simp add: selectedMap_def new_Map_distinct)

lemma selectedMap_copy: "new_Map (map_entries (selectedMap p)) = selectedMap p"
  by (rule new_Map_copy [OF selectedMap_distinct])

lemma map_of_map_set: "map_of (map_set k v m) = (map_of m)(k \<mapsto> v)"
  by (induction m) (auto simp: fun_eq_iff)

lemma map_of_foldl_map_set:
  "map_of (foldl (\<lambda>m e. map_set (fst e) (snd e) m) acc ps) = map_of acc ++ map_of (rev ps)"
proof (induction ps arbitrary: acc)
  case Nil
  then show ?case by simp
next
  case (Cons e ps)
  show ?case
    by (simp add: Cons.IH map_of_map_set map_add_def fun_eq_iff split: option.splits)
qed

lemma map_of_new_Map: "map_of (new_Map ps) = map_of (rev ps)"
  by (simp add: new_Map_def map_of_foldl_map_set)

lemma set_map_set: "set (map_set k v m) \<subseteq> insert (k, v) (set m)"
  by (induction m) auto

lemma set_foldl_map_set:
  "set (foldl (\<lambda>m e. map_set (fst e) (snd e) m) acc ps) \<subseteq> set acc \<union> set ps"
proof (induction ps arbitrary: acc)
  case Nil
  then show ?case by simp
next
  case (Cons e ps)
  have "set (map_set (fst e) (snd e) acc) \<subseteq> insert e (set acc)"
    using set_map_set [of "fst e" "snd e" acc] by simp
  with Cons.IH [of "map_set (fst e) (snd e) acc"] show ?case
    by auto
qed

lemma set_new_Map: "set (new_Map ps) \<subseteq> set ps"
  using set_foldl_map_set [of "[]" ps] by (simp add: new_Map_def)

lemma remdups_snoc: "remdups (xs @ [x]) = remdups (filter (\<lambda>y. y \<noteq> x) xs) @ [x]"
  by (induction xs) auto

lemma keys_foldl_map_set:
  "map fst (foldl (\<lambda>m e. map_set (fst e) (snd e) m) acc ps)
     = map fst acc @ rev (remdups (rev (filter (\<lambda>k. k \<notin> set (map fst acc)) (map fst ps))))"
proof (induction ps arbitrary: acc)
  case Nil
  then show ?case by simp
next
  case (Cons e ps)
  show ?case
  proof (cases "fst e \<in> set (map fst acc)")
    case True
    then show ?thesis
      by (simp add: Cons.IH map_set_keys)
  next
    case False
    have f: "filter (\<lambda>y. y \<noteq> fst e) (rev (filter (\<lambda>k. k \<notin> set (map fst acc)) (map fst ps)))
           = rev (filter (\<lambda>k. k \<notin> set (map fst (acc @ [e]))) (map fst ps))"
      by (simp add: rev_filter [symmetric] conj_commute)
    show ?thesis
      using False by (simp add: Cons.IH map_set_keys remdups_snoc f del: set_map)
  qed
qed

lemma keys_new_Map: "map fst (new_Map ps) = rev (remdups (rev (map fst ps)))"
  using keys_foldl_map_set [of "[]" ps] by (simp add: new_Map_def)

lemma new_Map_Nil_iff: "new_Map ps = [] \<longleftrightarrow> ps = []"
proof -
  have "map fst (new_Map ps) = [] \<longleftrightarrow> ps = []"
    by (simp add: keys_new_Map)
  then show ?thesis by simp
qed

section \<open>Facts about the selected map and toggling\<close>

lemma selectedMap_keys:
  "map fst (selectedMap p) = rev (remdups (rev (map (getId p) (values p))))"
  by (simp add: selectedMap_def keys_new_Map comp_def)

lemma selectedMap_Nil_iff: "selectedMap p = [] \<longleftrightarrow> values p = []"
  by (simp add: selectedMap_def new_Map_Nil_iff)

lemma selectedMap_entry: "e \<in> set (selectedMap p) \<Longrightarrow> fst e = getId p (snd e) \<and> snd e \<in> set (values p)"
  using set_new_Map [of "map (\<lambda>v. (getId p v, v)) (values p)"]
  by (auto simp: selectedMap_def)

lemma selectedMap_key_set: "set (map fst (selectedMap p)) = getId p ` set (values p)"
  by (simp add: selectedMap_keys)

lemma map_of_rev_pairs_last:
  "map_of (rev (map (\<lambda>x. (g x, x)) xs)) k =
     (if filter (\<lambda>x. g x = k) xs = [] then None else Some (last (filter (\<lambda>x. g x = k) xs)))"
  by (induction xs) (auto simp: map_add_def split: option.splits)

lemma alist_by_keys:
  "distinct (map fst m) \<Longrightarrow> map (\<lambda>k. (k, the (map_of m k))) (map fst m) = m"
proof (induction m)
  case Nil
  then show ?case by simp
next
  case (Cons e m)
  have ih: "map (\<lambda>k. (k, the (map_of m k))) (map fst m) = m"
    using Cons by simp
  have "fst e \<notin> set (map fst m)"
    using Cons.prems by simp
  then have ne: "\<And>k. k \<in> set (map fst m) \<Longrightarrow> k \<noteq> fst e"
    by metis
  have tl: "map (\<lambda>k. (k, the (map_of (e # m) k))) (map fst m)
      = map (\<lambda>k. (k, the (map_of m k))) (map fst m)"
  proof (rule map_cong [OF refl])
    fix k
    assume "k \<in> set (map fst m)"
    then have "k \<noteq> fst e"
      by (rule ne)
    then show "(k, the (map_of (e # m) k)) = (k, the (map_of m k))"
      by (cases e) simp
  qed
  have hd: "(fst e, the (map_of (e # m) (fst e))) = e"
    by (cases e) simp
  have "map (\<lambda>k. (k, the (map_of (e # m) k))) (map fst (e # m))
      = (fst e, the (map_of (e # m) (fst e))) # map (\<lambda>k. (k, the (map_of (e # m) k))) (map fst m)"
    by simp
  also have "\<dots> = e # m"
    by (simp only: tl hd ih)
  finally show ?case .
qed

lemma selectedMap_from_values:
  "selectedMap p =
     map (\<lambda>k. (k, last (filter (\<lambda>x. getId p x = k) (values p))))
       (rev (remdups (rev (map (getId p) (values p)))))"
proof -
  let ?keys = "rev (remdups (rev (map (getId p) (values p))))"
  have keys: "map fst (selectedMap p) = ?keys"
    by (rule selectedMap_keys)
  have val: "the (map_of (selectedMap p) k) = last (filter (\<lambda>x. getId p x = k) (values p))"
    if "k \<in> set ?keys" for k
  proof -
    from that obtain x where "x \<in> set (values p)" "getId p x = k"
      by auto
    then have "filter (\<lambda>x. getId p x = k) (values p) \<noteq> []"
      by (auto simp: filter_empty_conv)
    then show ?thesis
      by (simp add: selectedMap_def map_of_new_Map map_of_rev_pairs_last)
  qed
  have "selectedMap p = map (\<lambda>k. (k, the (map_of (selectedMap p) k))) (map fst (selectedMap p))"
    by (rule alist_by_keys [OF selectedMap_distinct, symmetric])
  also have "\<dots> = map (\<lambda>k. (k, the (map_of (selectedMap p) k))) ?keys"
    by (simp only: keys)
  also have "\<dots> = map (\<lambda>k. (k, last (filter (\<lambda>x. getId p x = k) (values p)))) ?keys"
    by (rule map_cong [OF refl]) (simp add: val)
  finally show ?thesis .
qed

lemma toggle_next_eq:
  "toggle_next p v =
     (if getId p v \<in> set (map fst (selectedMap p))
      then filter (\<lambda>e. fst e \<noteq> getId p v) (selectedMap p)
      else selectedMap p @ [(getId p v, v)])"
  by (simp add: toggle_next_def Let_def selectedMap_copy map_has_def map_delete_def map_set_absent)

lemma toggle_next_entry: "e \<in> set (toggle_next p v) \<Longrightarrow> fst e = getId p (snd e)"
  using selectedMap_entry [of e p] by (auto simp: toggle_next_eq split: if_splits)

lemma toggle_next_distinct: "distinct (map fst (toggle_next p v))"
  using selectedMap_distinct [of p] by (simp add: toggle_next_eq distinct_map_filter)

lemma entries_ids: "(\<And>e. e \<in> set m \<Longrightarrow> fst e = g (snd e)) \<Longrightarrow> map g (map snd m) = map fst m"
  by (induction m) auto

lemma toggle_next_ids: "map (getId p) (map_values (toggle_next p v)) = map fst (toggle_next p v)"
  unfolding map_values_def by (rule entries_ids) (rule toggle_next_entry)

lemma selectedMap_ids: "map (getId p) (map_values (selectedMap p)) = map fst (selectedMap p)"
  unfolding map_values_def by (rule entries_ids) (simp add: selectedMap_entry)

lemma filter_key_nth:
  "distinct (map fst m) \<Longrightarrow> i < length m \<Longrightarrow>
   filter (\<lambda>e. fst e \<noteq> fst (m ! i)) m = take i m @ drop (Suc i) m"
proof (induction m arbitrary: i)
  case Nil
  then show ?case by simp
next
  case (Cons e m)
  show ?case
  proof (cases i)
    case 0
    have "fst e \<notin> fst ` set m"
      using Cons.prems(1) by simp
    then have "\<forall>x\<in>set m. fst x \<noteq> fst e"
      by (metis imageI)
    then have "filter (\<lambda>x. fst x \<noteq> fst e) m = m"
      by (simp add: filter_id_conv)
    then show ?thesis using 0 by simp
  next
    case (Suc j)
    then have j: "j < length m" using Cons.prems(2) by simp
    then have "fst (m ! j) \<in> fst ` set m"
      by (metis nth_mem imageI)
    moreover have "fst e \<notin> fst ` set m"
      using Cons.prems(1) by simp
    ultimately have "fst e \<noteq> fst (m ! j)"
      by metis
    then show ?thesis
      using Suc Cons.IH [of j] Cons.prems(1) j by simp
  qed
qed

lemma one_entry_per_key:
  "distinct (map fst m) \<Longrightarrow> k \<in> set (map fst m) \<Longrightarrow> length (filter (\<lambda>e. fst e = k) m) = 1"
proof (induction m)
  case Nil
  then show ?case by simp
next
  case (Cons e m)
  show ?case
  proof (cases "fst e = k")
    case True
    then have "k \<notin> fst ` set m"
      using Cons.prems(1) by auto
    then have "\<forall>x\<in>set m. fst x \<noteq> k"
      by (metis imageI)
    then have "filter (\<lambda>x. fst x = k) m = []"
      by (simp add: filter_empty_conv)
    then show ?thesis using True by simp
  next
    case False
    then show ?thesis using Cons by auto
  qed
qed

lemma selectedMap_last_wins:
  assumes "values p = xs @ v # ys" and "getId p v \<notin> getId p ` set ys"
  shows "map_get (getId p v) (selectedMap p) = Some v"
proof -
  have none: "map_of (rev (map (\<lambda>x. (getId p x, x)) ys)) (getId p v) = None"
    using assms(2) by (simp add: map_of_eq_None_iff image_image)
  show ?thesis
    using none by (simp add: map_get_def selectedMap_def map_of_new_Map assms(1) map_add_def)
qed

lemma toggle_selected_badge:
  assumes "i < length (selectedMap p)"
  shows "map_values (toggle_next p (snd (selectedMap p ! i)))
           = take i (map_values (selectedMap p)) @ drop (Suc i) (map_values (selectedMap p))"
proof -
  let ?e = "selectedMap p ! i"
  have mem: "?e \<in> set (selectedMap p)"
    using assms by simp
  have key: "getId p (snd ?e) = fst ?e"
    using selectedMap_entry [OF mem] by simp
  have present: "getId p (snd ?e) \<in> set (map fst (selectedMap p))"
    using mem key by (metis image_eqI list.set_map)
  show ?thesis
    using present filter_key_nth [OF selectedMap_distinct assms]
    by (simp add: toggle_next_eq key map_values_def take_map drop_map)
qed

lemma selectedMap_of_entries:
  assumes "distinct (map fst m)" and "\<And>e. e \<in> set m \<Longrightarrow> fst e = getId p (snd e)"
  shows "selectedMap (p\<lparr>values := map_values m\<rparr>) = m"
proof -
  have "map ((\<lambda>v. (getId p v, v)) \<circ> snd) m = m"
    by (rule map_idI) (metis assms(2) comp_apply prod.collapse)
  then have "map (\<lambda>v. (getId p v, v)) (map snd m) = m"
    by simp
  then show ?thesis
    using new_Map_copy [OF assms(1)] by (simp add: selectedMap_def map_values_def map_entries_def)
qed

lemma selectedMap_reported:
  "getId q = getId p \<Longrightarrow> selectedMap (p\<lparr>values := map_values (toggle_next q v)\<rparr>) = toggle_next q v"
  using toggle_next_entry [of _ q v]
  by (intro selectedMap_of_entries) (simp_all add: toggle_next_distinct)

lemma map_of_filter_key:
  "map_of (filter (\<lambda>e. fst e \<noteq> a) m) k = (if k = a then None else map_of m k)"
  by (induction m) auto

lemma filter_absent_key: "a \<notin> set (map fst m) \<Longrightarrow> filter (\<lambda>e. fst e \<noteq> a) m = m"
  by (induction m) auto

lemma toggle_twice_next:
  "toggle_next (p\<lparr>values := map_values (toggle_next p v)\<rparr>) v =
     (if getId p v \<in> set (map fst (selectedMap p))
      then filter (\<lambda>e. fst e \<noteq> getId p v) (selectedMap p) @ [(getId p v, v)]
      else selectedMap p)"
proof -
  let ?p1 = "p\<lparr>values := map_values (toggle_next p v)\<rparr>"
  have s1: "selectedMap ?p1 = toggle_next p v"
    by (rule selectedMap_reported) simp
  show ?thesis
  proof (cases "getId p v \<in> set (map fst (selectedMap p))")
    case True
    then show ?thesis
      by (simp add: toggle_next_eq [of ?p1] s1) (auto simp: toggle_next_eq [of p])
  next
    case False
    then show ?thesis
      by (simp add: toggle_next_eq [of ?p1] s1) (simp add: toggle_next_eq [of p] filter_absent_key)
  qed
qed

section \<open>Facts about the store\<close>

lemma heap_map_alloc: "heap_map (hp @ [MapObj m]) (length hp) = Some m"
  by (simp add: heap_map_def)

lemma map_mutate_last: "map_mutate (length hp) f (hp @ [MapObj m]) = Some (hp @ [MapObj (f m)])"
  by (simp add: map_mutate_def heap_map_def)

lemma toggleValue_heap_result:
  assumes "heap_map hp0 selRef = Some sel" and "distinct (map fst sel)"
  shows "toggleValue_heap gid selRef val hp0 =
           Some (hp0 @ [MapObj (if map_has (gid val) sel then map_delete (gid val) sel
                                else map_set (gid val) val sel),
                        ArrayObj (map_values (if map_has (gid val) sel then map_delete (gid val) sel
                                              else map_set (gid val) val sel))],
                 Suc (length hp0))"
proof -
  have copy: "new_Map (map_entries sel) = sel"
    by (rule new_Map_copy [OF assms(2)])
  show ?thesis
  proof (cases "map_has (gid val) sel")
    case True
    then show ?thesis
      using assms(1)
      by (simp add: toggleValue_heap_def Let_def alloc_def copy heap_map_alloc map_mutate_last)
  next
    case False
    then show ?thesis
      using assms(1)
      by (simp add: toggleValue_heap_def Let_def alloc_def copy heap_map_alloc map_mutate_last)
  qed
qed

section \<open>Facts about the overflow loop\<close>

lemma length_cfg: "j \<le> n \<Longrightarrow> length (cfg n j) = n"
  by (simp add: cfg_def)

lemma cfg_hide: "j < n \<Longrightarrow> (cfg n j)[n - Suc j := DisplayNone] = cfg n (Suc j)"
proof -
  assume "j < n"
  then obtain d where d: "n - j = Suc d" "n - Suc j = d"
    by (cases "n - j") auto
  have a: "replicate (Suc d) DisplayDefault = replicate d DisplayDefault @ [DisplayDefault]"
    by (simp add: replicate_append_same)
  have "cfg n j = replicate d DisplayDefault @ (DisplayDefault # replicate j DisplayNone)"
    unfolding cfg_def d(1) a by simp
  then have "(cfg n j)[d := DisplayNone] = replicate d DisplayDefault @ (DisplayNone # replicate j DisplayNone)"
    by (simp add: list_update_append)
  then show ?thesis
    by (simp add: cfg_def d)
qed

lemma scan_from_cfg:
  "els s = cfg n j \<Longrightarrow> j \<le> n \<Longrightarrow> d = n - j \<Longrightarrow>
   \<exists>h s'. scan L (int d - 1) s = Inr s' \<and> j \<le> h \<and> h \<le> n
     \<and> els s' = cfg n h
     \<and> hidden s' = hidden s + (h - j)
     \<and> (\<forall>k. j \<le> k \<and> k < h \<longrightarrow> \<not> fits L (cfg n k))
     \<and> (h < n \<longrightarrow> fits L (cfg n h))
     \<and> hidden_at s' = hidden_at s @ rev [n - h..<n - j]
     \<and> iterations s' = iterations s + (h - j) + (if h < n then 1 else 0)"
proof (induction d arbitrary: j s)
  case 0
  then have "j = n" by simp
  then show ?case
    using 0 by (intro exI [of _ n] exI [of _ s]) (subst scan.simps, auto)
next
  case (Suc d)
  then have jn: "j < n" and dj: "d = n - Suc j" by auto
  show ?case
  proof (cases "fits L (cfg n j)")
    case True
    then show ?thesis
      using Suc.prems jn
      by (intro exI [of _ j] exI [of _ "s\<lparr>iterations := iterations s + 1\<rparr>"])
         (subst scan.simps, simp add: fits_def)
  next
    case False
    let ?s2 = "s\<lparr>els := (els s)[d := DisplayNone], hidden := hidden s + 1,
                  iterations := iterations s + 1, hidden_at := hidden_at s @ [d]\<rparr>"
    have i: "int (Suc d) - 1 = int d" "int d - 1 = int d - 1"
      by simp_all
    have dn: "d < length (els s)"
      using Suc.prems(1) jn dj by (simp add: length_cfg)
    have nofit: "\<not> scrollWidth L (els s) \<le> clientWidth L (els s)"
      using False Suc.prems(1) by (simp add: fits_def)
    have step: "scan L (int (Suc d) - 1) s = scan L (int d - 1) ?s2"
      unfolding i(1) using dn nofit by (subst scan.simps) simp
    have els2: "els ?s2 = cfg n (Suc j)"
      using Suc.prems(1) jn dj by (simp add: cfg_hide)
    from Suc.IH [OF els2 _ dj] jn
    obtain h s' where r: "scan L (int d - 1) ?s2 = Inr s'" "Suc j \<le> h" "h \<le> n"
      "els s' = cfg n h" "hidden s' = hidden ?s2 + (h - Suc j)"
      "\<forall>k. Suc j \<le> k \<and> k < h \<longrightarrow> \<not> fits L (cfg n k)"
      "h < n \<longrightarrow> fits L (cfg n h)"
      "hidden_at s' = hidden_at ?s2 @ rev [n - h..<n - Suc j]"
      "iterations s' = iterations ?s2 + (h - Suc j) + (if h < n then 1 else 0)"
      by auto
    have k: "\<forall>k. j \<le> k \<and> k < h \<longrightarrow> \<not> fits L (cfg n k)"
      using r(6) False by (metis Suc_leI le_neq_implies_less)
    have up: "[n - h..<n - j] = [n - h..<n - Suc j] @ [n - Suc j]"
      using r(2,3) jn by (metis Suc_diff_Suc diff_le_mono2 upt_Suc_append)
    have res: "scan L (int (Suc d) - 1) s = Inr s'"
      using step r(1) by simp
    have jh: "j \<le> h"
      using r(2) by simp
    have hid: "hidden s' = hidden s + (h - j)"
      using r(5) r(2) by simp
    have it: "iterations s' = iterations s + (h - j) + (if h < n then 1 else 0)"
      using r(9) r(2) by simp
    have ha: "hidden_at s' = hidden_at s @ rev [n - h..<n - j]"
      using r(8) dj by (simp add: up)
    show ?thesis
      by (intro exI [of _ h] exI [of _ s'] conjI) (fact res jh r(3) r(4) hid k r(7) ha it)+
  qed
qed

lemma measure_overflow_result:
  "\<exists>h s. measure_overflow L cs = Inr s \<and> h \<le> length cs
     \<and> els s = cfg (length cs) h
     \<and> hidden s = h
     \<and> (\<forall>k. k < h \<longrightarrow> \<not> fits L (cfg (length cs) k))
     \<and> (h < length cs \<longrightarrow> fits L (cfg (length cs) h))
     \<and> hidden_at s = rev [length cs - h..<length cs]
     \<and> iterations s = h + (if h < length cs then 1 else 0)"
proof -
  let ?s0 = "\<lparr>els = map (\<lambda>el. DisplayDefault) cs, hidden = 0, iterations = 0, hidden_at = []\<rparr>"
  have e0: "els ?s0 = cfg (length cs) 0"
    by (simp add: cfg_def map_replicate_const)
  from scan_from_cfg [OF e0, of "length cs" L]
  obtain h s where r: "scan L (int (length cs) - 1) ?s0 = Inr s" "h \<le> length cs"
    "els s = cfg (length cs) h" "hidden s = hidden ?s0 + (h - 0)"
    "\<forall>k. 0 \<le> k \<and> k < h \<longrightarrow> \<not> fits L (cfg (length cs) k)"
    "h < length cs \<longrightarrow> fits L (cfg (length cs) h)"
    "hidden_at s = hidden_at ?s0 @ rev [length cs - h..<length cs - 0]"
    "iterations s = iterations ?s0 + (h - 0) + (if h < length cs then 1 else 0)"
    by auto
  show ?thesis
    using r by (intro exI [of _ h] exI [of _ s]) (simp add: measure_overflow_def)
qed

lemma count_hidden_cfg: "j \<le> n \<Longrightarrow> length (filter (\<lambda>d. d = DisplayNone) (cfg n j)) = j"
  by (simp add: cfg_def)

section \<open>Claims\<close>

text \<open>
  C1. For every \<open>values\<close>, \<open>getId\<close> and value \<open>v\<close>, \<open>toggleValue(v)\<close> calls
  \<open>onValuesChange\<close> (when the host supplied it) with the values of the selected map
  after the toggle: when an entry has the key \<open>getId(v)\<close> that entry is removed, and
  otherwise \<open>v\<close> is appended; the other entries stay in their order. The selected map
  is the map built from \<open>values\<close>: its keys are the ids of \<open>values\<close>, each once, in
  the order of their first occurrences, and the entry of an id holds the last element of
  \<open>values\<close> with that id; when no id repeats it is \<open>values\<close> itself, keyed. So the
  reported list is given by \<open>values\<close>, \<open>getId\<close> and \<open>v\<close> alone.
\<close>

theorem toggleValue_reports_toggled_selection:
  assumes "onValuesChange p = Some cb"
  shows "toggleValue p v h =
           cb (if getId p v \<in> fst ` set (selectedMap p)
               then map snd (filter (\<lambda>e. fst e \<noteq> getId p v) (selectedMap p))
               else map snd (selectedMap p) @ [v]) h
       \<and> selectedMap p =
           map (\<lambda>k. (k, last (filter (\<lambda>x. getId p x = k) (values p))))
             (rev (remdups (rev (map (getId p) (values p)))))
       \<and> distinct (map fst (selectedMap p))
       \<and> (distinct (map (getId p) (values p)) \<longrightarrow>
            selectedMap p = map (\<lambda>x. (getId p x, x)) (values p))
       \<and> toggleValue p v h =
           cb (if getId p v \<in> getId p ` set (values p)
               then map (\<lambda>k. last (filter (\<lambda>x. getId p x = k) (values p)))
                      (filter (\<lambda>k. k \<noteq> getId p v)
                         (rev (remdups (rev (map (getId p) (values p))))))
               else map (\<lambda>k. last (filter (\<lambda>x. getId p x = k) (values p)))
                      (rev (remdups (rev (map (getId p) (values p))))) @ [v]) h"
proof -
  let ?ids = "rev (remdups (rev (map (getId p) (values p))))"
  let ?last = "\<lambda>k. last (filter (\<lambda>x. getId p x = k) (values p))"
  have report: "toggleValue p v h =
           cb (if getId p v \<in> fst ` set (selectedMap p)
               then map snd (filter (\<lambda>e. fst e \<noteq> getId p v) (selectedMap p))
               else map snd (selectedMap p) @ [v]) h"
    using assms
    by (simp add: toggleValue_def toggle_next_def Let_def selectedMap_copy map_has_def
        map_delete_def map_values_def map_set_absent)
  have built: "selectedMap p = map (\<lambda>k. (k, ?last k)) ?ids"
    by (rule selectedMap_from_values)
  have dist: "distinct (map fst (selectedMap p))"
    by (rule selectedMap_distinct)
  have plain: "distinct (map (getId p) (values p)) \<longrightarrow>
      selectedMap p = map (\<lambda>x. (getId p x, x)) (values p)"
  proof
    assume "distinct (map (getId p) (values p))"
    then have "distinct (map fst ([] @ map (\<lambda>x. (getId p x, x)) (values p)))"
      by (simp add: comp_def)
    from foldl_map_set_copy [OF this]
    show "selectedMap p = map (\<lambda>x. (getId p x, x)) (values p)"
      by (simp add: selectedMap_def new_Map_def)
  qed
  have keys: "fst ` set (selectedMap p) = getId p ` set (values p)"
    using selectedMap_key_set [of p] by simp
  have del: "map snd (filter (\<lambda>e. fst e \<noteq> getId p v) (map (\<lambda>k. (k, ?last k)) ?ids))
      = map ?last (filter (\<lambda>k. k \<noteq> getId p v) ?ids)"
    by (simp add: filter_map comp_def)
  have vals: "map snd (map (\<lambda>k. (k, ?last k)) ?ids) = map ?last ?ids"
    by (simp add: comp_def)
  have direct: "toggleValue p v h =
           cb (if getId p v \<in> getId p ` set (values p)
               then map ?last (filter (\<lambda>k. k \<noteq> getId p v) ?ids)
               else map ?last ?ids @ [v]) h"
    unfolding report keys by (simp only: built del vals)
  show ?thesis
    by (intro conjI) (fact report built dist plain direct)+
qed

theorem toggleValue_reports_toggled_selection_witness:
  "onValuesChange (readme_props [(''1'', ''React''), (''2'', ''Vue'')]) = Some (\<lambda>vs h. vs)
   \<and> distinct (map (getId (readme_props [(''1'', ''React''), (''2'', ''Vue'')]))
         (values (readme_props [(''1'', ''React''), (''2'', ''Vue'')])))
   \<and> toggleValue (readme_props [(''1'', ''React''), (''2'', ''Vue'')]) (''2'', ''Vue'') []
       = [(''1'', ''React'')]
   \<and> toggleValue (readme_props [(''1'', ''React''), (''2'', ''Vue'')]) (''3'', ''Angular'') []
       = [(''1'', ''React''), (''2'', ''Vue''), (''3'', ''Angular'')]
   \<and> selectedMap (readme_props [(''1'', ''React''), (''1'', ''Preact'')])
       = [(''1'', (''1'', ''Preact''))]
   \<and> toggleValue (readme_props [(''1'', ''React''), (''1'', ''Preact'')]) (''2'', ''Vue'') []
       = [(''1'', ''Preact''), (''2'', ''Vue'')]"
  using
    toggleValue_reports_toggled_selection
      [of "readme_props [(''1'', ''React''), (''2'', ''Vue'')]" "\<lambda>vs h. vs" "(''2'', ''Vue'')" "[]"]
    toggleValue_reports_toggled_selection
      [of "readme_props [(''1'', ''React''), (''2'', ''Vue'')]" "\<lambda>vs h. vs" "(''3'', ''Angular'')" "[]"]
    toggleValue_reports_toggled_selection
      [of "readme_props [(''1'', ''React''), (''1'', ''Preact'')]" "\<lambda>vs h. vs" "(''2'', ''Vue'')" "[]"]
  by (simp add: readme_props_def selectedMap_def new_Map_def)

text \<open>
  C2. When the effect measures (the container is mounted and wrapping is off), whatever
  the displays of the \<open>n\<close> badges were and whatever the layout says: every badge is
  shown again first, then the badges are hidden one per step from the last one backwards
  (\<open>hidden_at\<close> is \<open>n - 1, n - 2, ...\<close>), and the loop stops at the first row \<open>cfg n h\<close>
  that fits. So the hidden badges are the last \<open>h\<close> ones, a trailing run that may be
  empty, and the result depends on the old displays only through their number.
\<close>

theorem overflow_scan_hides_trailing_suffix:
  assumes "valueRef st = Some cs" and "\<not> wrap"
  shows "\<exists>h s. h \<le> length cs
           \<and> measure_overflow L cs
               = scan L (int (length cs) - 1)
                   \<lparr>els = replicate (length cs) DisplayDefault,
                    hidden = 0, iterations = 0, hidden_at = []\<rparr>
           \<and> measure_overflow L cs = Inr s
           \<and> overflow_effect L wrap st = Inr \<lparr>valueRef = Some (els s), overflowAmount = h\<rparr>
           \<and> els s = replicate (length cs - h) DisplayDefault @ replicate h DisplayNone
           \<and> hidden_at s = rev [length cs - h..<length cs]
           \<and> (\<forall>k. k < h \<longrightarrow> \<not> fits L (cfg (length cs) k))
           \<and> (h < length cs \<longrightarrow> fits L (cfg (length cs) h))"
proof -
  from measure_overflow_result [of L cs]
  obtain h s where r: "measure_overflow L cs = Inr s" "h \<le> length cs"
    "els s = cfg (length cs) h" "hidden s = h"
    "\<forall>k. k < h \<longrightarrow> \<not> fits L (cfg (length cs) k)"
    "h < length cs \<longrightarrow> fits L (cfg (length cs) h)"
    "hidden_at s = rev [length cs - h..<length cs]"
    by blast
  have eff: "overflow_effect L wrap st = Inr \<lparr>valueRef = Some (els s), overflowAmount = h\<rparr>"
    using assms r(1,4) by (simp add: overflow_effect_def)
  have shape: "els s = replicate (length cs - h) DisplayDefault @ replicate h DisplayNone"
    using r(3) by (simp add: cfg_def)
  have reset: "measure_overflow L cs
      = scan L (int (length cs) - 1)
          \<lparr>els = replicate (length cs) DisplayDefault, hidden = 0, iterations = 0, hidden_at = []\<rparr>"
    by (simp add: measure_overflow_def map_replicate_const)
  show ?thesis
    by (intro exI [of _ h] exI [of _ s] conjI) (fact r(2) reset r(1) eff shape r(7) r(5) r(6))+
qed

theorem overflow_scan_hides_trailing_suffix_witness:
  "valueRef \<lparr>valueRef = Some [DisplayDefault, DisplayNone, DisplayDefault, DisplayDefault],
              overflowAmount = 7\<rparr>
     = Some [DisplayDefault, DisplayNone, DisplayDefault, DisplayDefault]
   \<and> overflow_effect badges_of_40_in_100 False
         \<lparr>valueRef = Some [DisplayDefault, DisplayNone, DisplayDefault, DisplayDefault],
          overflowAmount = 7\<rparr>
       = Inr \<lparr>valueRef = Some [DisplayDefault, DisplayDefault, DisplayNone, DisplayNone],
              overflowAmount = 2\<rparr>"
  using overflow_scan_hides_trailing_suffix
    [of "\<lparr>valueRef = Some [DisplayDefault, DisplayNone, DisplayDefault, DisplayDefault],
          overflowAmount = 7\<rparr>"
        "[DisplayDefault, DisplayNone, DisplayDefault, DisplayDefault]" False badges_of_40_in_100]
  by (simp add: overflow_effect_def measure_overflow_def scan.simps badges_of_40_in_100_def)

text \<open>
  C3. The loop is one linear scan. For every layout and every \<open>n\<close> badges it returns
  (it is a total function and never reads past the array), it enters its body at most
  \<open>n\<close> times, and the indices it hides are pairwise different. When no row of hidden
  trailing badges ever fits, it hides all \<open>n\<close> badges in exactly \<open>n\<close> iterations.
\<close>

theorem overflow_scan_linear_and_total:
  "\<exists>s. measure_overflow L cs = Inr s
      \<and> iterations s \<le> length cs
      \<and> hidden s \<le> length cs
      \<and> length (hidden_at s) = hidden s
      \<and> distinct (hidden_at s)
      \<and> ((\<forall>k. k \<le> length cs \<longrightarrow> \<not> fits L (cfg (length cs) k))
           \<longrightarrow> hidden s = length cs \<and> iterations s = length cs
               \<and> els s = replicate (length cs) DisplayNone)"
proof -
  from measure_overflow_result [of L cs]
  obtain h s where r: "measure_overflow L cs = Inr s" "h \<le> length cs"
    "els s = cfg (length cs) h" "hidden s = h"
    "h < length cs \<longrightarrow> fits L (cfg (length cs) h)"
    "hidden_at s = rev [length cs - h..<length cs]"
    "iterations s = h + (if h < length cs then 1 else 0)"
    by blast
  have it: "iterations s \<le> length cs"
    using r(2,7) by (simp split: if_splits)
  have hd: "hidden s \<le> length cs"
    using r(2,4) by simp
  have len: "length (hidden_at s) = hidden s"
    using r(2,4,6) by simp
  have dist: "distinct (hidden_at s)"
    using r(6) by simp
  have never: "(\<forall>k. k \<le> length cs \<longrightarrow> \<not> fits L (cfg (length cs) k))
      \<longrightarrow> hidden s = length cs \<and> iterations s = length cs \<and> els s = replicate (length cs) DisplayNone"
  proof
    assume a: "\<forall>k. k \<le> length cs \<longrightarrow> \<not> fits L (cfg (length cs) k)"
    have "\<not> h < length cs"
      using a r(5) by auto
    then have "h = length cs"
      using r(2) by simp
    then show "hidden s = length cs \<and> iterations s = length cs \<and> els s = replicate (length cs) DisplayNone"
      using r(3,4,7) by (simp add: cfg_def)
  qed
  show ?thesis
    by (intro exI [of _ s] conjI) (fact r(1) it hd len dist never)+
qed

theorem overflow_scan_linear_and_total_witness:
  "(\<forall>ds. \<not> fits never_fits ds)
   \<and> measure_overflow never_fits [DisplayDefault, DisplayNone, DisplayDefault]
       = Inr \<lparr>els = [DisplayNone, DisplayNone, DisplayNone], hidden = 3, iterations = 3,
              hidden_at = [2, 1, 0]\<rparr>"
  using overflow_scan_linear_and_total [of never_fits "[DisplayDefault, DisplayNone, DisplayDefault]"]
  by (simp add: measure_overflow_def scan.simps never_fits_def fits_def)

text \<open>
  C4. The effect runs after the render has been committed, so the container is mounted
  whenever the selection is not empty (the hypothesis). Then the effect returns, and:
  when the container is not mounted or wrapping is on (\<open>overflowBehavior\<close> is \<open>wrap\<close>, or
  \<open>wrap-when-open\<close> while the popover is open) it sets \<open>overflowAmount\<close> to 0 and leaves
  every badge's display as it was; otherwise \<open>overflowAmount\<close> is the number of badges the
  scan hid, which is also the number of badges with \<open>display: none\<close> afterwards. The render
  with that \<open>overflowAmount\<close> shows the overflow badge \<open>+overflowAmount\<close> exactly when
  \<open>overflowAmount > 0\<close> and wrapping is off. The same holds of every render: whatever
  \<open>overflowAmount\<close> and \<open>open\<close> are, a non-empty selection shows the badge \<open>+overflowAmount\<close>
  exactly when \<open>overflowAmount > 0\<close> and wrapping is off, and an empty one never shows it.
\<close>

theorem overflow_amount_counts_hidden_badges:
  assumes "map_size (selectedMap p) = 0 \<Longrightarrow> valueRef st = None"
  shows "(\<exists>st'. overflow_effect L (shouldWrap (overflowBehavior_of vp) opn) st = Inr st'
           \<and> (shouldWrap (overflowBehavior_of vp) opn
                 \<longleftrightarrow> overflowBehavior_of vp = Wrap \<or> (overflowBehavior_of vp = WrapWhenOpen \<and> opn))
           \<and> (case valueRef st of
                 None \<Rightarrow> st' = st\<lparr>overflowAmount := 0\<rparr>
               | Some cs \<Rightarrow>
                   if shouldWrap (overflowBehavior_of vp) opn then st' = st\<lparr>overflowAmount := 0\<rparr>
                   else \<exists>s. measure_overflow L cs = Inr s
                          \<and> valueRef st' = Some (els s)
                          \<and> overflowAmount st' = length (hidden_at s)
                          \<and> overflowAmount st' = length (filter (\<lambda>d. d = DisplayNone) (els s)))
           \<and> view_overflow (MultiSelectValue vp p opn (overflowAmount st'))
               = (if 0 < overflowAmount st' \<and> \<not> shouldWrap (overflowBehavior_of vp) opn
                  then Some (overflowAmount st') else None))
       \<and> (\<forall>amount opn'.
            view_overflow (MultiSelectValue vp p opn' amount)
              = (if map_size (selectedMap p) \<noteq> 0 \<and> 0 < amount
                    \<and> \<not> shouldWrap (overflowBehavior_of vp) opn'
                 then Some amount else None))"
proof -
  have after_effect: "\<exists>st'. overflow_effect L (shouldWrap (overflowBehavior_of vp) opn) st = Inr st'
           \<and> (shouldWrap (overflowBehavior_of vp) opn
                 \<longleftrightarrow> overflowBehavior_of vp = Wrap \<or> (overflowBehavior_of vp = WrapWhenOpen \<and> opn))
           \<and> (case valueRef st of
                 None \<Rightarrow> st' = st\<lparr>overflowAmount := 0\<rparr>
               | Some cs \<Rightarrow>
                   if shouldWrap (overflowBehavior_of vp) opn then st' = st\<lparr>overflowAmount := 0\<rparr>
                   else \<exists>s. measure_overflow L cs = Inr s
                          \<and> valueRef st' = Some (els s)
                          \<and> overflowAmount st' = length (hidden_at s)
                          \<and> overflowAmount st' = length (filter (\<lambda>d. d = DisplayNone) (els s)))
           \<and> view_overflow (MultiSelectValue vp p opn (overflowAmount st'))
               = (if 0 < overflowAmount st' \<and> \<not> shouldWrap (overflowBehavior_of vp) opn
                  then Some (overflowAmount st') else None)"
  proof -
    let ?wrap = "shouldWrap (overflowBehavior_of vp) opn"
    have sw: "?wrap \<longleftrightarrow> overflowBehavior_of vp = Wrap \<or> (overflowBehavior_of vp = WrapWhenOpen \<and> opn)"
      by (simp add: shouldWrap_def)
    show ?thesis
    proof (cases "valueRef st")
      case None
      have eff: "overflow_effect L ?wrap st = Inr (st\<lparr>overflowAmount := 0\<rparr>)"
        using None by (simp add: overflow_effect_def)
      have view: "view_overflow (MultiSelectValue vp p opn (overflowAmount (st\<lparr>overflowAmount := 0\<rparr>)))
          = (if 0 < overflowAmount (st\<lparr>overflowAmount := 0\<rparr>) \<and> \<not> ?wrap
             then Some (overflowAmount (st\<lparr>overflowAmount := 0\<rparr>)) else None)"
        by (simp add: MultiSelectValue_def Let_def)
      show ?thesis
        using None eff sw view by (intro exI [of _ "st\<lparr>overflowAmount := 0\<rparr>"]) simp
    next
      case (Some cs)
      then have nonempty: "map_size (selectedMap p) \<noteq> 0"
        using assms by auto
      show ?thesis
      proof (cases ?wrap)
        case True
        have eff: "overflow_effect L ?wrap st = Inr (st\<lparr>overflowAmount := 0\<rparr>)"
          using Some True by (simp add: overflow_effect_def)
        have view: "view_overflow (MultiSelectValue vp p opn (overflowAmount (st\<lparr>overflowAmount := 0\<rparr>)))
            = (if 0 < overflowAmount (st\<lparr>overflowAmount := 0\<rparr>) \<and> \<not> ?wrap
               then Some (overflowAmount (st\<lparr>overflowAmount := 0\<rparr>)) else None)"
          by (simp add: MultiSelectValue_def Let_def)
        show ?thesis
          using Some True eff sw view by (intro exI [of _ "st\<lparr>overflowAmount := 0\<rparr>"]) simp
      next
        case False
        from measure_overflow_result [of L cs]
        obtain h s where r: "measure_overflow L cs = Inr s" "h \<le> length cs"
          "els s = cfg (length cs) h" "hidden s = h"
          "hidden_at s = rev [length cs - h..<length cs]"
          by blast
        let ?st' = "\<lparr>valueRef = Some (els s), overflowAmount = hidden s\<rparr>"
        have eff: "overflow_effect L ?wrap st = Inr ?st'"
          using Some False r(1) by (simp add: overflow_effect_def)
        have n1: "overflowAmount ?st' = length (hidden_at s)"
          using r(2,4,5) by simp
        have n2: "overflowAmount ?st' = length (filter (\<lambda>d. d = DisplayNone) (els s))"
          using r(2,3,4) by (simp add: count_hidden_cfg)
        have view: "view_overflow (MultiSelectValue vp p opn (overflowAmount ?st'))
            = (if 0 < overflowAmount ?st' \<and> \<not> ?wrap then Some (overflowAmount ?st') else None)"
          using nonempty by (simp add: MultiSelectValue_def Let_def)
        have meas: "\<exists>s'. measure_overflow L cs = Inr s' \<and> valueRef ?st' = Some (els s')
            \<and> overflowAmount ?st' = length (hidden_at s')
            \<and> overflowAmount ?st' = length (filter (\<lambda>d. d = DisplayNone) (els s'))"
          using r(1) n1 n2 by (intro exI [of _ s]) simp
        show ?thesis
          apply (intro exI [of _ ?st'] conjI)
             apply (fact eff)
            apply (fact sw)
           apply (simp only: Some option.case False if_False)
           apply (fact meas)
          apply (fact view)
          done
      qed
    qed
  qed
  have any_render: "(\<forall>amount opn'.
              view_overflow (MultiSelectValue vp p opn' amount)
                = (if map_size (selectedMap p) \<noteq> 0 \<and> 0 < amount
                      \<and> \<not> shouldWrap (overflowBehavior_of vp) opn'
                   then Some amount else None))"
    by (simp add: MultiSelectValue_def Let_def)
  show ?thesis
    using after_effect any_render by (rule conjI)
qed

theorem overflow_amount_counts_hidden_badges_witness:
  "map_size (selectedMap (readme_props [(''1'', ''React''), (''2'', ''Vue''), (''3'', ''Angular'')])) = 3
   \<and> overflow_effect badges_of_40_in_100
         (shouldWrap (overflowBehavior_of
            \<lparr>placeholder = None, clickToRemove = None, overflowBehavior = Some Cutoff\<rparr>) True)
         \<lparr>valueRef = Some [DisplayDefault, DisplayDefault, DisplayDefault], overflowAmount = 0\<rparr>
       = Inr \<lparr>valueRef = Some [DisplayDefault, DisplayDefault, DisplayNone], overflowAmount = 1\<rparr>
   \<and> view_overflow
         (MultiSelectValue \<lparr>placeholder = None, clickToRemove = None, overflowBehavior = Some Cutoff\<rparr>
            (readme_props [(''1'', ''React''), (''2'', ''Vue''), (''3'', ''Angular'')]) True 1)
       = Some 1
   \<and> overflow_effect badges_of_40_in_100
         (shouldWrap (overflowBehavior_of
            \<lparr>placeholder = None, clickToRemove = None, overflowBehavior = None\<rparr>) True)
         \<lparr>valueRef = Some [DisplayDefault, DisplayDefault, DisplayNone], overflowAmount = 1\<rparr>
       = Inr \<lparr>valueRef = Some [DisplayDefault, DisplayDefault, DisplayNone], overflowAmount = 0\<rparr>
   \<and> view_overflow
         (MultiSelectValue \<lparr>placeholder = None, clickToRemove = None, overflowBehavior = None\<rparr>
            (readme_props [(''1'', ''React''), (''2'', ''Vue''), (''3'', ''Angular'')]) True 0)
       = None
   \<and> view_overflow
         (MultiSelectValue \<lparr>placeholder = None, clickToRemove = None, overflowBehavior = None\<rparr>
            (readme_props [(''1'', ''React''), (''2'', ''Vue''), (''3'', ''Angular'')]) True 2)
       = None
   \<and> view_overflow
         (MultiSelectValue \<lparr>placeholder = None, clickToRemove = None, overflowBehavior = None\<rparr>
            (readme_props [(''1'', ''React''), (''2'', ''Vue''), (''3'', ''Angular'')]) False 2)
       = Some 2"
  using
    overflow_amount_counts_hidden_badges
      [of "readme_props [(''1'', ''React''), (''2'', ''Vue''), (''3'', ''Angular'')]"
          "\<lparr>valueRef = Some [DisplayDefault, DisplayDefault, DisplayNone], overflowAmount = 1\<rparr>"
          badges_of_40_in_100
          "\<lparr>placeholder = None, clickToRemove = None, overflowBehavior = None\<rparr>" True]
    overflow_amount_counts_hidden_badges
      [of "readme_props [(''1'', ''React''), (''2'', ''Vue''), (''3'', ''Angular'')]"
          "\<lparr>valueRef = Some [DisplayDefault, DisplayDefault, DisplayDefault], overflowAmount = 0\<rparr>"
          badges_of_40_in_100
          "\<lparr>placeholder = None, clickToRemove = None, overflowBehavior = Some Cutoff\<rparr>" True]
  by (simp add: readme_props_def selectedMap_def new_Map_def map_size_def overflow_effect_def
      measure_overflow_def scan.simps badges_of_40_in_100_def shouldWrap_def overflowBehavior_of_def
      MultiSelectValue_def Let_def)

text \<open>
  C5. For a non-empty selection \<open>MultiSelectValue\<close> renders the box with one badge per
  entry of the selected map, in the map's order: the keys are the ids of \<open>values\<close> with
  every id at its first occurrence, and they are the ids of \<open>values\<close> themselves when
  no id repeats. Each badge renders \<open>renderItem(value, true)\<close>. With \<open>clickToRemove\<close> the
  click handler of the badge at position \<open>i\<close> stops the propagation of the event and calls
  \<open>toggleValue\<close> on that badge's value; without it there is no handler. Toggling the value
  of the badge at position \<open>i\<close> reports the selection without its \<open>i\<close>-th entry.
\<close>

theorem one_badge_per_selected_entry:
  assumes "values p \<noteq> []"
  shows "(\<exists>w ov. MultiSelectValue vp p opn amount
                    = ValueBox w (view_badges (MultiSelectValue vp p opn amount)) ov)
       \<and> length (view_badges (MultiSelectValue vp p opn amount)) = map_size (selectedMap p)
       \<and> map badge_key (view_badges (MultiSelectValue vp p opn amount))
           = map fst (map_entries (selectedMap p))
       \<and> map badge_key (view_badges (MultiSelectValue vp p opn amount))
           = rev (remdups (rev (map (getId p) (values p))))
       \<and> (distinct (map (getId p) (values p)) \<longrightarrow>
            map badge_key (view_badges (MultiSelectValue vp p opn amount)) = map (getId p) (values p)
            \<and> map_values (selectedMap p) = values p)
       \<and> map badge_content (view_badges (MultiSelectValue vp p opn amount))
           = map (\<lambda>v. renderItem p v True) (map_values (selectedMap p))
       \<and> (\<forall>i. i < length (view_badges (MultiSelectValue vp p opn amount)) \<longrightarrow>
            (if clickToRemove_of vp
             then \<exists>f. onClick (view_badges (MultiSelectValue vp p opn amount) ! i) = Some f
                    \<and> (\<forall>ev h. f (ev, h)
                          = (ev\<lparr>propagationStopped := True\<rparr>,
                             toggleValue p (map_values (selectedMap p) ! i) h))
             else onClick (view_badges (MultiSelectValue vp p opn amount) ! i) = None)
            \<and> map_values (toggle_next p (map_values (selectedMap p) ! i))
                = take i (map_values (selectedMap p)) @ drop (Suc i) (map_values (selectedMap p)))"
proof -
  let ?bs = "view_badges (MultiSelectValue vp p opn amount)"
  have ne: "map_size (selectedMap p) \<noteq> 0"
    using assms selectedMap_Nil_iff [of p] by (simp add: map_size_def)
  have bs: "?bs = map (selected_badge p (clickToRemove_of vp)) (selectedMap p)"
    using ne by (simp add: MultiSelectValue_def Let_def map_entries_def)
  have box: "\<exists>w ov. MultiSelectValue vp p opn amount = ValueBox w ?bs ov"
    using ne by (simp add: MultiSelectValue_def Let_def)
  have len: "length ?bs = map_size (selectedMap p)"
    by (simp add: bs map_size_def)
  have keys: "map badge_key ?bs = map fst (map_entries (selectedMap p))"
    by (simp add: bs selected_badge_def map_entries_def comp_def)
  have order: "map badge_key ?bs = rev (remdups (rev (map (getId p) (values p))))"
    using keys by (simp add: map_entries_def selectedMap_keys)
  have dist: "distinct (map (getId p) (values p)) \<longrightarrow>
      map badge_key ?bs = map (getId p) (values p) \<and> map_values (selectedMap p) = values p"
  proof
    assume d: "distinct (map (getId p) (values p))"
    have "distinct (map fst ([] @ map (\<lambda>v. (getId p v, v)) (values p)))"
      using d by (simp add: comp_def)
    from foldl_map_set_copy [OF this]
    have "selectedMap p = map (\<lambda>v. (getId p v, v)) (values p)"
      by (simp add: selectedMap_def new_Map_def)
    then show "map badge_key ?bs = map (getId p) (values p) \<and> map_values (selectedMap p) = values p"
      using keys by (simp add: map_entries_def map_values_def comp_def)
  qed
  have content: "map badge_content ?bs = map (\<lambda>v. renderItem p v True) (map_values (selectedMap p))"
    by (simp add: bs selected_badge_def map_values_def comp_def)
  have click: "\<forall>i. i < length ?bs \<longrightarrow>
      (if clickToRemove_of vp
       then \<exists>f. onClick (?bs ! i) = Some f
              \<and> (\<forall>ev h. f (ev, h)
                    = (ev\<lparr>propagationStopped := True\<rparr>, toggleValue p (map_values (selectedMap p) ! i) h))
       else onClick (?bs ! i) = None)
      \<and> map_values (toggle_next p (map_values (selectedMap p) ! i))
          = take i (map_values (selectedMap p)) @ drop (Suc i) (map_values (selectedMap p))"
  proof (intro allI impI)
    fix i
    assume "i < length ?bs"
    then have i: "i < length (selectedMap p)"
      by (simp add: bs)
    have v: "map_values (selectedMap p) ! i = snd (selectedMap p ! i)"
      using i by (simp add: map_values_def)
    have h: "if clickToRemove_of vp
       then \<exists>f. onClick (?bs ! i) = Some f
              \<and> (\<forall>ev h. f (ev, h)
                    = (ev\<lparr>propagationStopped := True\<rparr>, toggleValue p (map_values (selectedMap p) ! i) h))
       else onClick (?bs ! i) = None"
      using i by (simp add: bs selected_badge_def v)
    have t: "map_values (toggle_next p (map_values (selectedMap p) ! i))
          = take i (map_values (selectedMap p)) @ drop (Suc i) (map_values (selectedMap p))"
      unfolding v by (rule toggle_selected_badge [OF i])
    show "(if clickToRemove_of vp
       then \<exists>f. onClick (?bs ! i) = Some f
              \<and> (\<forall>ev h. f (ev, h)
                    = (ev\<lparr>propagationStopped := True\<rparr>, toggleValue p (map_values (selectedMap p) ! i) h))
       else onClick (?bs ! i) = None)
      \<and> map_values (toggle_next p (map_values (selectedMap p) ! i))
          = take i (map_values (selectedMap p)) @ drop (Suc i) (map_values (selectedMap p))"
      using h t by (rule conjI)
  qed
  show ?thesis
    by (intro conjI) (fact box len keys order dist content click)+
qed

theorem one_badge_per_selected_entry_witness:
  "values (readme_props [(''1'', ''React''), (''2'', ''Vue'')]) \<noteq> []
   \<and> map badge_key (view_badges (MultiSelectValue
          \<lparr>placeholder = None, clickToRemove = None, overflowBehavior = None\<rparr>
          (readme_props [(''1'', ''React''), (''2'', ''Vue'')]) False 0))
       = [''1'', ''2'']
   \<and> map badge_content (view_badges (MultiSelectValue
          \<lparr>placeholder = None, clickToRemove = None, overflowBehavior = None\<rparr>
          (readme_props [(''1'', ''React''), (''2'', ''Vue'')]) False 0))
       = [''* React'', ''* Vue'']
   \<and> map_option (\<lambda>f. f (\<lparr>propagationStopped = False\<rparr>, []))
         (onClick (view_badges (MultiSelectValue
            \<lparr>placeholder = None, clickToRemove = None, overflowBehavior = None\<rparr>
            (readme_props [(''1'', ''React''), (''2'', ''Vue'')]) False 0) ! 0))
       = Some (\<lparr>propagationStopped = True\<rparr>, [(''2'', ''Vue'')])"
  using one_badge_per_selected_entry
    [of "readme_props [(''1'', ''React''), (''2'', ''Vue'')]"
        "\<lparr>placeholder = None, clickToRemove = None, overflowBehavior = None\<rparr>" False 0]
  by (simp add: readme_props_def selectedMap_def new_Map_def map_size_def map_entries_def
      MultiSelectValue_def Let_def selected_badge_def clickToRemove_of_def toggleValue_def
      toggle_next_def map_has_def map_delete_def map_values_def)

text \<open>
  C8. When the selected map is empty, which is when \<open>values\<close> is the empty list,
  \<open>MultiSelectValue\<close> renders the placeholder and nothing else, for every
  \<open>overflowBehavior\<close>, every \<open>open\<close> and every value of \<open>overflowAmount\<close>.
\<close>

theorem empty_selection_renders_placeholder:
  assumes "map_size (selectedMap p) = 0"
  shows "values p = []
       \<and> MultiSelectValue vp p opn amount = PlaceholderSpan (placeholder vp)
       \<and> view_badges (MultiSelectValue vp p opn amount) = []
       \<and> view_overflow (MultiSelectValue vp p opn amount) = None"
  using assms selectedMap_Nil_iff [of p]
  by (simp add: MultiSelectValue_def Let_def map_size_def)

theorem empty_selection_renders_placeholder_witness:
  "map_size (selectedMap (readme_props [])) = 0
   \<and> MultiSelectValue
        \<lparr>placeholder = Some ''Select frameworks...'', clickToRemove = None,
         overflowBehavior = Some Cutoff\<rparr> (readme_props []) False 2
       = PlaceholderSpan (Some ''Select frameworks...'')"
  using empty_selection_renders_placeholder
    [of "readme_props []"
        "\<lparr>placeholder = Some ''Select frameworks...'', clickToRemove = None,
          overflowBehavior = Some Cutoff\<rparr>" False 2]
  by (simp add: readme_props_def selectedMap_def new_Map_def map_size_def)

text \<open>
  C10. The selected map has one entry per id, and so has the map after a toggle; the
  list a toggle reports has pairwise different ids. When several elements of \<open>values\<close>
  share an id, the entry of that id holds the last of them, there is one entry and one
  badge for the id, and one toggle of a value with that id leaves no element with that id
  in the reported selection.
\<close>

theorem selected_map_one_entry_per_id:
  "distinct (map fst (selectedMap p))
   \<and> distinct (map fst (toggle_next p v))
   \<and> distinct (map (getId p) (map_values (toggle_next p v)))
   \<and> (\<forall>xs x ys. values p = xs @ x # ys \<and> getId p x \<notin> getId p ` set ys \<longrightarrow>
         map_get (getId p x) (selectedMap p) = Some x
         \<and> length (filter (\<lambda>e. fst e = getId p x) (selectedMap p)) = 1
         \<and> length (filter (\<lambda>b. badge_key b = getId p x)
                     (view_badges (MultiSelectValue vp p opn amount))) = 1)
   \<and> (getId p v \<in> getId p ` set (values p) \<longrightarrow>
         getId p v \<notin> getId p ` set (map_values (toggle_next p v)))"
proof -
  have d1: "distinct (map fst (selectedMap p))"
    by (rule selectedMap_distinct)
  have d2: "distinct (map fst (toggle_next p v))"
    by (rule toggle_next_distinct)
  have d3: "distinct (map (getId p) (map_values (toggle_next p v)))"
    by (simp add: toggle_next_ids toggle_next_distinct)
  have last: "\<forall>xs x ys. values p = xs @ x # ys \<and> getId p x \<notin> getId p ` set ys \<longrightarrow>
         map_get (getId p x) (selectedMap p) = Some x
         \<and> length (filter (\<lambda>e. fst e = getId p x) (selectedMap p)) = 1
         \<and> length (filter (\<lambda>b. badge_key b = getId p x)
                     (view_badges (MultiSelectValue vp p opn amount))) = 1"
  proof (intro allI impI)
    fix xs x ys
    assume a: "values p = xs @ x # ys \<and> getId p x \<notin> getId p ` set ys"
    have g: "map_get (getId p x) (selectedMap p) = Some x"
      using a by (intro selectedMap_last_wins [of p xs x ys]) simp_all
    have k: "getId p x \<in> set (map fst (selectedMap p))"
      using a by (simp add: selectedMap_keys)
    have one: "length (filter (\<lambda>e. fst e = getId p x) (selectedMap p)) = 1"
      by (rule one_entry_per_key [OF d1 k])
    have ne: "map_size (selectedMap p) \<noteq> 0"
      using a selectedMap_Nil_iff [of p] by (simp add: map_size_def)
    have bs: "view_badges (MultiSelectValue vp p opn amount)
        = map (selected_badge p (clickToRemove_of vp)) (selectedMap p)"
      using ne by (simp add: MultiSelectValue_def Let_def map_entries_def)
    have "filter (\<lambda>b. badge_key b = getId p x) (map (selected_badge p (clickToRemove_of vp)) (selectedMap p))
        = map (selected_badge p (clickToRemove_of vp)) (filter (\<lambda>e. fst e = getId p x) (selectedMap p))"
      by (simp add: filter_map comp_def selected_badge_def)
    then have badge: "length (filter (\<lambda>b. badge_key b = getId p x)
        (view_badges (MultiSelectValue vp p opn amount))) = 1"
      using one by (simp add: bs)
    show "map_get (getId p x) (selectedMap p) = Some x
         \<and> length (filter (\<lambda>e. fst e = getId p x) (selectedMap p)) = 1
         \<and> length (filter (\<lambda>b. badge_key b = getId p x)
                     (view_badges (MultiSelectValue vp p opn amount))) = 1"
      by (intro conjI) (fact g one badge)+
  qed
  have gone: "getId p v \<in> getId p ` set (values p) \<longrightarrow>
         getId p v \<notin> getId p ` set (map_values (toggle_next p v))"
  proof
    assume "getId p v \<in> getId p ` set (values p)"
    then have k: "getId p v \<in> set (map fst (selectedMap p))"
      by (simp add: selectedMap_keys)
    have "set (map (getId p) (map_values (toggle_next p v))) = set (map fst (toggle_next p v))"
      by (simp only: toggle_next_ids)
    also have "\<dots> = set (map fst (filter (\<lambda>e. fst e \<noteq> getId p v) (selectedMap p)))"
      using k by (simp add: toggle_next_eq)
    finally have "getId p v \<notin> set (map (getId p) (map_values (toggle_next p v)))"
      by auto
    then show "getId p v \<notin> getId p ` set (map_values (toggle_next p v))"
      by simp
  qed
  show ?thesis
    by (intro conjI) (fact d1 d2 d3 last gone)+
qed

theorem selected_map_one_entry_per_id_witness:
  "values (readme_props [(''1'', ''React''), (''2'', ''Vue''), (''1'', ''Preact'')])
     = [(''1'', ''React''), (''2'', ''Vue'')] @ (''1'', ''Preact'') # []
   \<and> selectedMap (readme_props [(''1'', ''React''), (''2'', ''Vue''), (''1'', ''Preact'')])
       = [(''1'', (''1'', ''Preact'')), (''2'', (''2'', ''Vue''))]
   \<and> map badge_key (view_badges (MultiSelectValue
          \<lparr>placeholder = None, clickToRemove = None, overflowBehavior = None\<rparr>
          (readme_props [(''1'', ''React''), (''2'', ''Vue''), (''1'', ''Preact'')]) False 0))
       = [''1'', ''2'']
   \<and> map_values (toggle_next
          (readme_props [(''1'', ''React''), (''2'', ''Vue''), (''1'', ''Preact'')]) (''1'', ''React''))
       = [(''2'', ''Vue'')]"
  using selected_map_one_entry_per_id
    [of "readme_props [(''1'', ''React''), (''2'', ''Vue''), (''1'', ''Preact'')]" "(''1'', ''React'')"
        "\<lparr>placeholder = None, clickToRemove = None, overflowBehavior = None\<rparr>" False 0]
  by (simp add: readme_props_def selectedMap_def new_Map_def map_size_def map_entries_def
      MultiSelectValue_def Let_def selected_badge_def clickToRemove_of_def
      toggle_next_def map_has_def map_delete_def map_values_def)

text \<open>
  C6. The search box is delegated to the host. The value shown is the \<open>inputValue\<close> prop
  when the host gives it and the internal search state otherwise; an edit goes to
  \<open>onInputChange\<close> when the host gives it and to the internal setter otherwise; and the
  input is rendered exactly when \<open>search\<close> (with its default \<open>true\<close>) is truthy or an
  object, that is, unless the host passes \<open>search={false}\<close>. The rendered input shows
  \<open>searchValue\<close> and reports edits to \<open>setSearchValue\<close>; without the two props an edit is
  what the box shows next.
\<close>

theorem search_box_is_delegated:
  "searchValue p st = (case inputValue p of Some s \<Rightarrow> s | None \<Rightarrow> internalSearch st)
   \<and> setSearchValue p val (h, st)
       = (case onInputChange p of
            Some cb \<Rightarrow> (cb val h, st)
          | None \<Rightarrow> (h, st\<lparr>internalSearch := val\<rparr>))
   \<and> (commandInput (MultiSelectContent search_opt p st) \<noteq> None
        \<longleftrightarrow> truthy (case search_opt of None \<Rightarrow> SearchBool True | Some s \<Rightarrow> s)
            \<or> typeof_object (case search_opt of None \<Rightarrow> SearchBool True | Some s \<Rightarrow> s))
   \<and> (commandInput (MultiSelectContent search_opt p st) = None
        \<longleftrightarrow> search_opt = Some (SearchBool False))
   \<and> (\<forall>ci. commandInput (MultiSelectContent search_opt p st) = Some ci \<longrightarrow>
          input_value ci = searchValue p st \<and> onValueChange ci = setSearchValue p)
   \<and> (inputValue p = None \<and> onInputChange p = None \<longrightarrow>
          searchValue p (snd (setSearchValue p val (h, st))) = val
          \<and> fst (setSearchValue p val (h, st)) = h)"
proof -
  let ?search = "case search_opt of None \<Rightarrow> SearchBool True | Some s \<Rightarrow> s"
  have a: "searchValue p st = (case inputValue p of Some s \<Rightarrow> s | None \<Rightarrow> internalSearch st)"
    by (simp add: searchValue_def split: option.splits)
  have b: "setSearchValue p val (h, st)
       = (case onInputChange p of
            Some cb \<Rightarrow> (cb val h, st)
          | None \<Rightarrow> (h, st\<lparr>internalSearch := val\<rparr>))"
    by (simp add: setSearchValue_def split: option.splits)
  have c: "commandInput (MultiSelectContent search_opt p st) \<noteq> None
        \<longleftrightarrow> truthy ?search \<or> typeof_object ?search"
    by (auto simp: MultiSelectContent_def Let_def)
  have d: "commandInput (MultiSelectContent search_opt p st) = None
        \<longleftrightarrow> search_opt = Some (SearchBool False)"
  proof (cases search_opt)
    case None
    then show ?thesis by (simp add: MultiSelectContent_def Let_def)
  next
    case (Some s)
    then show ?thesis by (cases s) (simp_all add: MultiSelectContent_def Let_def)
  qed
  have e: "\<forall>ci. commandInput (MultiSelectContent search_opt p st) = Some ci \<longrightarrow>
          input_value ci = searchValue p st \<and> onValueChange ci = setSearchValue p"
    by (auto simp: MultiSelectContent_def Let_def split: if_splits)
  have f: "inputValue p = None \<and> onInputChange p = None \<longrightarrow>
          searchValue p (snd (setSearchValue p val (h, st))) = val
          \<and> fst (setSearchValue p val (h, st)) = h"
    by (simp add: searchValue_def setSearchValue_def)
  show ?thesis
    by (intro conjI) (fact a b c d e f)+
qed

theorem search_box_is_delegated_witness:
  "inputValue (readme_props []) = None \<and> onInputChange (readme_props []) = None
   \<and> searchValue (readme_props []) \<lparr>open = True, internalSearch = ''re''\<rparr> = ''re''
   \<and> setSearchValue (readme_props []) ''rea'' ([], \<lparr>open = True, internalSearch = ''re''\<rparr>)
       = ([], \<lparr>open = True, internalSearch = ''rea''\<rparr>)
   \<and> map_option input_value
         (commandInput (MultiSelectContent None (readme_props [])
            \<lparr>open = True, internalSearch = ''re''\<rparr>))
       = Some ''re''
   \<and> searchValue ((readme_props [])\<lparr>inputValue := Some ''vu''\<rparr>)
         \<lparr>open = True, internalSearch = ''re''\<rparr> = ''vu''
   \<and> setSearchValue ((readme_props [])\<lparr>onInputChange := Some (\<lambda>s h. [(''typed'', s)])\<rparr>) ''rea''
         ([], \<lparr>open = True, internalSearch = ''re''\<rparr>)
       = ([(''typed'', ''rea'')], \<lparr>open = True, internalSearch = ''re''\<rparr>)
   \<and> commandInput (MultiSelectContent (Some (SearchBool False)) (readme_props [])
         \<lparr>open = True, internalSearch = ''re''\<rparr>) = None"
  using
    search_box_is_delegated
      [of "readme_props []" "\<lparr>open = True, internalSearch = ''re''\<rparr>" "''rea''" "[]" None]
    search_box_is_delegated
      [of "(readme_props [])\<lparr>inputValue := Some ''vu''\<rparr>" "\<lparr>open = True, internalSearch = ''re''\<rparr>"
          "''rea''" "[]" "Some (SearchBool False)"]
  by (simp add: readme_props_def searchValue_def setSearchValue_def MultiSelectContent_def Let_def)

text \<open>
  C7. Toggling the same value twice, the host storing each reported list. That this
  gives back the original list when the value was not selected, and the original
  id-keyed map in general, fails on two inputs: a \<open>values\<close> list in which an id repeats
  (the result has one element for that id), and a selected id toggled with another value
  of that id (the map then holds the new value).
\<close>

theorem toggle_twice_not_identity_counterexample:
  "getId (readme_props [(''1'', ''React''), (''1'', ''Preact'')]) (''2'', ''Vue'')
     \<notin> set (map fst (selectedMap (readme_props [(''1'', ''React''), (''1'', ''Preact'')])))
   \<and> toggle_twice (readme_props [(''1'', ''React''), (''1'', ''Preact'')]) (''2'', ''Vue'')
       = [(''1'', ''Preact'')]
   \<and> toggle_twice (readme_props [(''1'', ''React''), (''1'', ''Preact'')]) (''2'', ''Vue'')
       \<noteq> values (readme_props [(''1'', ''React''), (''1'', ''Preact'')])
   \<and> toggle_twice (readme_props [(''1'', ''React'')]) (''1'', ''Preact'') = [(''1'', ''Preact'')]
   \<and> map_get ''1'' (selectedMap (readme_props [(''1'', ''React'')])) = Some (''1'', ''React'')
   \<and> map_get ''1'' (selectedMap
         ((readme_props [(''1'', ''React'')])
            \<lparr>values := toggle_twice (readme_props [(''1'', ''React'')]) (''1'', ''Preact'')\<rparr>))
       = Some (''1'', ''Preact'')"
  by (simp add: toggle_twice_def readme_props_def selectedMap_def new_Map_def toggle_next_def
      map_entries_def map_has_def map_delete_def map_values_def map_get_def)

text \<open>
  C7, as the code has it. Two toggles keep the set of ids and the value of every id other
  than \<open>getId(v)\<close>. When \<open>getId(v)\<close> was not selected, the result is the list of values of
  the original selected map, which is the original list when no id repeats in it, and the
  id-keyed map is the original one. When \<open>getId(v)\<close> was selected, the result is the
  original map's values without that entry followed by \<open>v\<close>: the id now maps to \<open>v\<close> at the
  end, and the entries are the original ones when the original entry held \<open>v\<close>.
\<close>

theorem toggle_twice_restores_ids:
  "set (map fst (selectedMap (p\<lparr>values := toggle_twice p v\<rparr>))) = set (map fst (selectedMap p))
   \<and> (\<forall>k. k \<noteq> getId p v \<longrightarrow>
         map_get k (selectedMap (p\<lparr>values := toggle_twice p v\<rparr>)) = map_get k (selectedMap p))
   \<and> (getId p v \<notin> set (map fst (selectedMap p)) \<longrightarrow>
         toggle_twice p v = map_values (selectedMap p)
         \<and> selectedMap (p\<lparr>values := toggle_twice p v\<rparr>) = selectedMap p
         \<and> (distinct (map (getId p) (values p)) \<longrightarrow> toggle_twice p v = values p))
   \<and> (getId p v \<in> set (map fst (selectedMap p)) \<longrightarrow>
         toggle_twice p v = map_values (map_delete (getId p v) (selectedMap p)) @ [v]
         \<and> selectedMap (p\<lparr>values := toggle_twice p v\<rparr>)
             = map_delete (getId p v) (selectedMap p) @ [(getId p v, v)]
         \<and> map_get (getId p v) (selectedMap (p\<lparr>values := toggle_twice p v\<rparr>)) = Some v
         \<and> (map_get (getId p v) (selectedMap p) = Some v \<longrightarrow>
               set (selectedMap (p\<lparr>values := toggle_twice p v\<rparr>)) = set (selectedMap p)))"
proof -
  let ?p1 = "p\<lparr>values := map_values (toggle_next p v)\<rparr>"
  let ?p2 = "p\<lparr>values := toggle_twice p v\<rparr>"
  let ?a = "getId p v"
  let ?sel = "selectedMap p"
  have tw: "toggle_twice p v = map_values (toggle_next ?p1 v)"
    by (simp add: toggle_twice_def)
  have s2: "selectedMap ?p2 = toggle_next ?p1 v"
    unfolding tw by (rule selectedMap_reported) simp
  have n2: "toggle_next ?p1 v =
      (if ?a \<in> set (map fst ?sel) then filter (\<lambda>e. fst e \<noteq> ?a) ?sel @ [(?a, v)] else ?sel)"
    by (rule toggle_twice_next)
  have ids: "set (map fst (selectedMap ?p2)) = set (map fst ?sel)"
    unfolding s2 n2 by auto
  have others: "\<forall>k. k \<noteq> ?a \<longrightarrow> map_get k (selectedMap ?p2) = map_get k ?sel"
    unfolding s2 n2
    by (auto simp: map_get_def map_add_def map_of_filter_key split: option.splits)
  have absent: "?a \<notin> set (map fst ?sel) \<longrightarrow>
         toggle_twice p v = map_values ?sel
         \<and> selectedMap ?p2 = ?sel
         \<and> (distinct (map (getId p) (values p)) \<longrightarrow> toggle_twice p v = values p)"
  proof
    assume a: "?a \<notin> set (map fst ?sel)"
    have t: "toggle_twice p v = map_values ?sel"
      using a by (simp add: tw n2)
    have s: "selectedMap ?p2 = ?sel"
      using a by (simp add: s2 n2)
    have d: "distinct (map (getId p) (values p)) \<longrightarrow> toggle_twice p v = values p"
    proof
      assume "distinct (map (getId p) (values p))"
      then have "distinct (map fst ([] @ map (\<lambda>x. (getId p x, x)) (values p)))"
        by (simp add: comp_def)
      from foldl_map_set_copy [OF this]
      have "?sel = map (\<lambda>x. (getId p x, x)) (values p)"
        by (simp add: selectedMap_def new_Map_def)
      then show "toggle_twice p v = values p"
        by (simp add: t map_values_def comp_def)
    qed
    show "toggle_twice p v = map_values ?sel \<and> selectedMap ?p2 = ?sel
         \<and> (distinct (map (getId p) (values p)) \<longrightarrow> toggle_twice p v = values p)"
      by (intro conjI) (fact t s d)+
  qed
  have present: "?a \<in> set (map fst ?sel) \<longrightarrow>
         toggle_twice p v = map_values (map_delete ?a ?sel) @ [v]
         \<and> selectedMap ?p2 = map_delete ?a ?sel @ [(?a, v)]
         \<and> map_get ?a (selectedMap ?p2) = Some v
         \<and> (map_get ?a ?sel = Some v \<longrightarrow> set (selectedMap ?p2) = set ?sel)"
  proof
    assume a: "?a \<in> set (map fst ?sel)"
    have s: "selectedMap ?p2 = map_delete ?a ?sel @ [(?a, v)]"
      using a by (simp add: s2 n2 map_delete_def)
    have t: "toggle_twice p v = map_values (map_delete ?a ?sel) @ [v]"
      unfolding tw n2 using a by (simp add: map_delete_def map_values_def)
    have g: "map_get ?a (selectedMap ?p2) = Some v"
      by (simp add: s map_get_def map_delete_def map_add_def map_of_filter_key)
    have same: "map_get ?a ?sel = Some v \<longrightarrow> set (selectedMap ?p2) = set ?sel"
    proof
      assume "map_get ?a ?sel = Some v"
      then have mem: "(?a, v) \<in> set ?sel"
        by (simp add: map_get_def map_of_SomeD)
      have uniq: "e = (?a, v)" if "e \<in> set ?sel" and "fst e = ?a" for e
      proof -
        have "(?a, snd e) \<in> set ?sel"
          using that by (metis prod.collapse)
        from eq_key_imp_eq_value [OF selectedMap_distinct this mem] have "snd e = v" .
        then show ?thesis
          using that(2) by (simp add: prod_eq_iff)
      qed
      have "set (filter (\<lambda>e. fst e \<noteq> ?a) ?sel @ [(?a, v)]) = set ?sel"
      proof (intro set_eqI iffI)
        fix e
        assume "e \<in> set (filter (\<lambda>e. fst e \<noteq> ?a) ?sel @ [(?a, v)])"
        then show "e \<in> set ?sel"
          using mem by auto
      next
        fix e
        assume e: "e \<in> set ?sel"
        show "e \<in> set (filter (\<lambda>e. fst e \<noteq> ?a) ?sel @ [(?a, v)])"
        proof (cases "fst e = ?a")
          case True
          then show ?thesis using uniq [OF e] by simp
        next
          case False
          then show ?thesis using e by simp
        qed
      qed
      then show "set (selectedMap ?p2) = set ?sel"
        by (simp add: s map_delete_def)
    qed
    show "toggle_twice p v = map_values (map_delete ?a ?sel) @ [v]
         \<and> selectedMap ?p2 = map_delete ?a ?sel @ [(?a, v)]
         \<and> map_get ?a (selectedMap ?p2) = Some v
         \<and> (map_get ?a ?sel = Some v \<longrightarrow> set (selectedMap ?p2) = set ?sel)"
      by (intro conjI) (fact t s g same)+
  qed
  show ?thesis
    by (intro conjI) (fact ids others absent present)+
qed

theorem toggle_twice_restores_ids_witness:
  "getId (readme_props [(''1'', ''React''), (''2'', ''Vue'')]) (''3'', ''Angular'')
     \<notin> set (map fst (selectedMap (readme_props [(''1'', ''React''), (''2'', ''Vue'')])))
   \<and> distinct (map (getId (readme_props [(''1'', ''React''), (''2'', ''Vue'')]))
        (values (readme_props [(''1'', ''React''), (''2'', ''Vue'')])))
   \<and> toggle_twice (readme_props [(''1'', ''React''), (''2'', ''Vue'')]) (''3'', ''Angular'')
       = [(''1'', ''React''), (''2'', ''Vue'')]
   \<and> getId (readme_props [(''1'', ''React''), (''2'', ''Vue'')]) (''1'', ''React'')
       \<in> set (map fst (selectedMap (readme_props [(''1'', ''React''), (''2'', ''Vue'')])))
   \<and> map_get ''1'' (selectedMap (readme_props [(''1'', ''React''), (''2'', ''Vue'')]))
       = Some (''1'', ''React'')
   \<and> toggle_twice (readme_props [(''1'', ''React''), (''2'', ''Vue'')]) (''1'', ''React'')
       = [(''2'', ''Vue''), (''1'', ''React'')]"
  using
    toggle_twice_restores_ids
      [of "readme_props [(''1'', ''React''), (''2'', ''Vue'')]" "(''3'', ''Angular'')"]
    toggle_twice_restores_ids
      [of "readme_props [(''1'', ''React''), (''2'', ''Vue'')]" "(''1'', ''React'')"]
  by (simp add: toggle_twice_def readme_props_def selectedMap_def new_Map_def toggle_next_def
      map_entries_def map_has_def map_delete_def map_values_def map_get_def)

text \<open>
  C9. \<open>toggleValue\<close> mutates none of its inputs. On the store, with the \<open>values\<close> array at
  \<open>valuesRef\<close> and the selected map allocated by the render: the call returns, every
  object that existed before the call is unchanged (so are the \<open>values\<close> array and the
  selected map), and \<open>onValuesChange\<close> receives a reference to an array allocated by the
  call, holding the values of \<open>next\<close>, the copy of the map that the call allocated and
  changed.
\<close>

theorem toggleValue_mutates_no_input:
  assumes "heap_array hp valuesRef = Some (values p)"
  shows "\<exists>hp0 selRef hp1 arr.
           selectedMap_heap (getId p) valuesRef hp = Some (hp0, selRef)
         \<and> heap_map hp0 selRef = Some (selectedMap p)
         \<and> toggleValue_heap (getId p) selRef v hp0 = Some (hp1, arr)
         \<and> take (length hp0) hp1 = hp0
         \<and> heap_array hp1 valuesRef = Some (values p)
         \<and> heap_map hp1 selRef = Some (selectedMap p)
         \<and> length hp0 \<le> arr \<and> arr < length hp1
         \<and> heap_array hp1 arr = Some (map_values (toggle_next p v))
         \<and> heap_map hp1 (length hp0) = Some (toggle_next p v)"
proof -
  let ?sel = "selectedMap p"
  let ?hp0 = "hp @ [MapObj ?sel]"
  let ?next = "if map_has (getId p v) ?sel then map_delete (getId p v) ?sel
               else map_set (getId p v) v ?sel"
  let ?hp1 = "?hp0 @ [MapObj ?next, ArrayObj (map_values ?next)]"
  have vr: "valuesRef < length hp"
    using assms by (simp add: heap_array_def split: if_splits)
  have render: "selectedMap_heap (getId p) valuesRef hp = Some (?hp0, length hp)"
    using assms by (simp add: selectedMap_heap_def alloc_def selectedMap_def)
  have sel0: "heap_map ?hp0 (length hp) = Some ?sel"
    by (rule heap_map_alloc)
  have tog: "toggleValue_heap (getId p) (length hp) v ?hp0 = Some (?hp1, Suc (length ?hp0))"
    by (rule toggleValue_heap_result [OF sel0 selectedMap_distinct])
  have nxt: "?next = toggle_next p v"
    by (simp add: toggle_next_def Let_def selectedMap_copy)
  have frame: "take (length ?hp0) ?hp1 = ?hp0"
    by simp
  have vals: "heap_array ?hp1 valuesRef = Some (values p)"
    using assms vr by (simp add: heap_array_def nth_append)
  have sel1: "heap_map ?hp1 (length hp) = Some ?sel"
    by (simp add: heap_map_def nth_append)
  have fresh: "length ?hp0 \<le> Suc (length ?hp0) \<and> Suc (length ?hp0) < length ?hp1"
    by simp
  have arr: "heap_array ?hp1 (Suc (length ?hp0)) = Some (map_values (toggle_next p v))"
    unfolding nxt by (simp add: heap_array_def nth_append)
  have cp: "heap_map ?hp1 (length ?hp0) = Some (toggle_next p v)"
    unfolding nxt by (simp add: heap_map_def nth_append)
  show ?thesis
    apply (rule exI [of _ ?hp0])
    apply (rule exI [of _ "length hp"])
    apply (rule exI [of _ ?hp1])
    apply (rule exI [of _ "Suc (length ?hp0)"])
    apply (intro conjI)
             apply (fact render)
            apply (fact sel0)
           apply (fact tog)
          apply (fact frame)
         apply (fact vals)
        apply (fact sel1)
       apply (rule conjunct1 [OF fresh])
      apply (rule conjunct2 [OF fresh])
     apply (fact arr)
    apply (fact cp)
    done
qed

theorem toggleValue_mutates_no_input_witness:
  "heap_array [ArrayObj [(''1'', ''React''), (''2'', ''Vue'')]] 0
     = Some (values (readme_props [(''1'', ''React''), (''2'', ''Vue'')]))
   \<and> selectedMap_heap fst 0 [ArrayObj [(''1'', ''React''), (''2'', ''Vue'')]]
       = Some ([ArrayObj [(''1'', ''React''), (''2'', ''Vue'')],
                MapObj [(''1'', (''1'', ''React'')), (''2'', (''2'', ''Vue''))]], 1)
   \<and> toggleValue_heap fst 1 (''2'', ''Vue'')
         [ArrayObj [(''1'', ''React''), (''2'', ''Vue'')],
          MapObj [(''1'', (''1'', ''React'')), (''2'', (''2'', ''Vue''))]]
       = Some ([ArrayObj [(''1'', ''React''), (''2'', ''Vue'')],
                MapObj [(''1'', (''1'', ''React'')), (''2'', (''2'', ''Vue''))],
                MapObj [(''1'', (''1'', ''React''))],
                ArrayObj [(''1'', ''React'')]], 3)"
  using toggleValue_mutates_no_input
    [of "[ArrayObj [(''1'', ''React''), (''2'', ''Vue'')]]" 0
        "readme_props [(''1'', ''React''), (''2'', ''Vue'')]" "(''2'', ''Vue'')"]
  by (simp add: readme_props_def heap_array_def heap_map_def selectedMap_heap_def
      toggleValue_heap_def map_mutate_def alloc_def new_Map_def map_entries_def map_has_def
      map_delete_def map_values_def Let_def selectedMap_def toggle_next_def)

end
